theory Spec2Isabelle
  imports Main "HOL-Library.Word"
begin

unbundle bit_operations_syntax

section \<open>The dqlite wire client (internal/client/client.go)\<close>

text \<open>
  A shallow embedding of the client side of the dqlite wire protocol: the functions of
  \<^verbatim>\<open>client.go\<close> become HOL functions over an explicit client state. An
  error return of the Go code is the value \<open>Fail e\<close>, a panic is the value \<open>Panic p\<close>,
  and the bytes a callee stores through a slice it was handed are returned to the caller
  as the new content of that slice.
\<close>

subsection \<open>Errors, panics and results\<close>

type_synonym byte = "8 word"

text \<open>
  Error values. \<open>ErrShortWrite\<close> and \<open>ErrNoProgress\<close> are the two \<^verbatim>\<open>io\<close> errors
  the client produces itself, \<open>EOF\<close> is \<^verbatim>\<open>io.EOF\<close>, \<open>Other\<close> is any error of a
  collaborator (the connection, the decoder, the store) and \<open>Wrap e msg\<close> is
  \<^verbatim>\<open>errors.Wrap(e, msg)\<close> for a non-nil \<open>e\<close>.
\<close>

datatype err = ErrShortWrite | ErrNoProgress | EOF | Other string | Wrap err string

text \<open>
  Panics: \<^verbatim>\<open>panic(errNegativeRead)\<close>, a slice expression out of range and an index
  expression out of range.
\<close>

datatype panic = NegativeRead | SliceBounds | IndexRange

datatype 'a res = Ok 'a | Fail err | Panic panic

subsection \<open>The connection\<close>

text \<open>
  The \<^verbatim>\<open>net.Conn\<close> is an interface; its behaviour is given by two scripts.
  \<open>inbox\<close> lists what the coming calls of \<^verbatim>\<open>Read\<close> meet: \<open>ReadEv bs e\<close> is a
  chunk of bytes \<open>bs\<close> (possibly empty) that arrives together with the error \<open>e\<close>, and
  \<open>ReadNeg\<close> is a read that reports a negative count. \<open>outbox\<close> lists what the coming
  calls of \<^verbatim>\<open>Write\<close> return, as the count and the error. \<open>log\<close> records every
  call made on the connection, oldest first.
\<close>

datatype read_ev = ReadEv "byte list" "err option" | ReadNeg

datatype write_ev = WriteEv int "err option"

datatype op =
    OpRead nat int "err option"
  | OpWrite "byte list" int "err option"

record conn =
  inbox :: "read_ev list"
  outbox :: "write_ev list"
  log :: "op list"

text \<open>
  \<^verbatim>\<open>conn.Read(buf)\<close>: returns the count and the error, the connection afterwards
  and the content of \<open>buf\<close> afterwards. A chunk longer than \<open>buf\<close> fills \<open>buf\<close> and
  its rest, with its error, stays at the head of the stream; a shorter chunk is a short
  read. The count is never above the length of \<open>buf\<close>, as \<^verbatim>\<open>io.Reader\<close>
  promises; the only count outside the contract is the negative one of \<open>ReadNeg\<close>,
  which the source checks for. A stream that is exhausted reports \<^verbatim>\<open>io.EOF\<close>.
\<close>

definition conn_Read :: "conn \<Rightarrow> byte list \<Rightarrow> (int \<times> err option) \<times> conn \<times> byte list" where
  "conn_Read c buf =
     (case inbox c of
        [] \<Rightarrow> ((0, Some EOF), c\<lparr>log := log c @ [OpRead (length buf) 0 (Some EOF)]\<rparr>, buf)
      | ReadNeg # evs \<Rightarrow>
          ((- 1, None), c\<lparr>inbox := evs, log := log c @ [OpRead (length buf) (- 1) None]\<rparr>, buf)
      | ReadEv bs e # evs \<Rightarrow>
          (if length bs \<le> length buf
           then ((int (length bs), e),
                 c\<lparr>inbox := evs, log := log c @ [OpRead (length buf) (int (length bs)) e]\<rparr>,
                 bs @ drop (length bs) buf)
           else ((int (length buf), None),
                 c\<lparr>inbox := ReadEv (drop (length buf) bs) e # evs,
                   log := log c @ [OpRead (length buf) (int (length buf)) None]\<rparr>,
                 take (length buf) bs)))"

text \<open>
  \<^verbatim>\<open>conn.Write(buf)\<close>: returns the count and the error of the next entry of the
  script, whatever they are; with no entry left the connection accepts the whole of
  \<open>buf\<close>.
\<close>

definition conn_Write :: "conn \<Rightarrow> byte list \<Rightarrow> (int \<times> err option) \<times> conn" where
  "conn_Write c buf =
     (case outbox c of
        [] \<Rightarrow> ((int (length buf), None), c\<lparr>log := log c @ [OpWrite buf (int (length buf)) None]\<rparr>)
      | WriteEv n e # evs \<Rightarrow> ((n, e), c\<lparr>outbox := evs, log := log c @ [OpWrite buf n e]\<rparr>))"

subsection \<open>Messages and the client\<close>

text \<open>
  Modelled from the spec: the constants \<^verbatim>\<open>messageWordSize\<close>,
  \<^verbatim>\<open>messageHeaderSize\<close> and \<^verbatim>\<open>messageMaxConsecutiveEmptyReads\<close> are declared
  outside client.go. The spec fixes the word at 8 bytes and the header at 8 bytes, and
  gives 100 as the bound on consecutive empty reads.
\<close>

definition messageWordSize :: int where
  "messageWordSize = 8"

definition messageHeaderSize :: int where
  "messageHeaderSize = 8"

definition messageMaxConsecutiveEmptyReads :: nat where
  "messageMaxConsecutiveEmptyReads = 100"

text \<open>
  Modelled from the spec: the types \<^verbatim>\<open>buffer\<close> and \<^verbatim>\<open>Message\<close> are declared
  outside client.go. A buffer is a fixed-capacity byte slice with an offset; \<open>Bytes\<close> is
  \<open>None\<close> for the nil slice, and the length of the list is the capacity of the buffer.
  A message has the header block, the four decoded header fields, the primary buffer
  \<open>body1\<close> and the overflow buffer \<open>body2\<close>.
\<close>

record buffer =
  Bytes :: "byte list option"
  Offset :: int

record message =
  words :: "32 word"
  mtype :: byte
  flags :: byte
  extra :: "16 word"
  header :: "byte list"
  body1 :: buffer
  body2 :: buffer

text \<open>
  The client: the connection and the mutex \<open>mu\<close> (\<open>True\<close> while locked), the address,
  the heartbeat period and whether \<^verbatim>\<open>closeCh\<close> has been closed. The store is kept
  apart, with the heartbeat.
\<close>

record client =
  address :: string
  conn :: conn
  heartbeatTimeout :: nat
  closeCh :: bool
  mu :: bool

text \<open>
  The slice expression \<^verbatim>\<open>b[:n]\<close>: it panics unless \<open>0 \<le> n \<le> cap(b)\<close>, and the nil
  slice has capacity 0.
\<close>

definition slice_to :: "byte list option \<Rightarrow> int \<Rightarrow> panic + byte list" where
  "slice_to b n =
     (let bs = (case b of None \<Rightarrow> [] | Some xs \<Rightarrow> xs)
      in if 0 \<le> n \<and> n \<le> int (length bs) then Inr (take (nat n) bs) else Inl SliceBounds)"

text \<open>
  The index expression \<^verbatim>\<open>b[i]\<close> and the slice expression \<^verbatim>\<open>b[i:]\<close> on a
  slice given by its content.
\<close>

definition index_at :: "byte list \<Rightarrow> nat \<Rightarrow> panic + byte" where
  "index_at b i = (if i < length b then Inr (b ! i) else Inl IndexRange)"

definition slice_from :: "byte list \<Rightarrow> nat \<Rightarrow> panic + byte list" where
  "slice_from b i = (if i \<le> length b then Inr (drop i b) else Inl SliceBounds)"

text \<open>
  \<^verbatim>\<open>binary.LittleEndian.Uint32\<close> and \<^verbatim>\<open>Uint16\<close> of the Go library: a bounds
  check on the last byte read, then the bytes shifted into place and joined by
  bitwise or.
\<close>

definition le_Uint32 :: "byte list \<Rightarrow> panic + 32 word" where
  "le_Uint32 b =
     (if length b < 4 then Inl IndexRange
      else Inr (ucast (b ! 0) OR push_bit 8 (ucast (b ! 1)) OR push_bit 16 (ucast (b ! 2))
                OR push_bit 24 (ucast (b ! 3))))"

definition le_Uint16 :: "byte list \<Rightarrow> panic + 16 word" where
  "le_Uint16 b =
     (if length b < 2 then Inl IndexRange
      else Inr (ucast (b ! 0) OR push_bit 8 (ucast (b ! 1))))"

text \<open>
  Storing \<open>new\<close> through the slice \<^verbatim>\<open>b[:length new]\<close>: the first bytes of \<open>b\<close> are
  replaced, the others stay.
\<close>

definition store_to :: "byte list option \<Rightarrow> byte list \<Rightarrow> byte list option" where
  "store_to b new = (case b of None \<Rightarrow> None | Some xs \<Rightarrow> Some (new @ drop (length new) xs))"

subsection \<open>Receiving\<close>

text \<open>
  \<^verbatim>\<open>recvFill\<close>: at most \<^verbatim>\<open>messageMaxConsecutiveEmptyReads\<close> reads, stopping at
  the first that reports an error or at least one byte. The loop counter is the first
  argument of \<open>recvFill_loop\<close>.
\<close>

primrec recvFill_loop :: "nat \<Rightarrow> client \<Rightarrow> byte list \<Rightarrow> int res \<times> client \<times> byte list" where
  "recvFill_loop 0 c buf = (Fail ErrNoProgress, c, buf)"
| "recvFill_loop (Suc i) c buf =
     (case conn_Read (conn c) buf of
        ((n, e), k, buf') \<Rightarrow>
          (if n < 0 then (Panic NegativeRead, c\<lparr>conn := k\<rparr>, buf')
           else case e of
                  Some x \<Rightarrow> (Fail x, c\<lparr>conn := k\<rparr>, buf')
                | None \<Rightarrow>
                    (if 0 < n then (Ok n, c\<lparr>conn := k\<rparr>, buf')
                     else recvFill_loop i (c\<lparr>conn := k\<rparr>) buf')))"

definition recvFill :: "client \<Rightarrow> byte list \<Rightarrow> int res \<times> client \<times> byte list" where
  "recvFill c buf = recvFill_loop messageMaxConsecutiveEmptyReads c buf"

lemma conn_Read_length: "conn_Read k buf = (r, k', buf') \<Longrightarrow> length buf' = length buf"
  by (auto simp: conn_Read_def split: list.splits read_ev.splits if_splits)

lemma recvFill_loop_length:
  "recvFill_loop i c buf = (r, c', buf') \<Longrightarrow> length buf' = length buf"
proof (induction i arbitrary: c buf)
  case 0
  then show ?case by simp
next
  case (Suc i)
  obtain n e k b where rd: "conn_Read (conn c) buf = ((n, e), k, b)"
    by (metis prod.exhaust)
  have len: "length b = length buf"
    using rd by (rule conn_Read_length)
  show ?case
  proof (cases "n < 0 \<or> e \<noteq> None \<or> 0 < n")
    case True
    then show ?thesis using Suc.prems rd len by (auto split: option.splits if_splits)
  next
    case False
    then have "recvFill_loop i (c\<lparr>conn := k\<rparr>) b = (r, c', buf')"
      using Suc.prems rd by simp
    then show ?thesis using Suc.IH len by simp
  qed
qed

lemma recvFill_loop_pos: "recvFill_loop i c buf = (Ok n, c', buf') \<Longrightarrow> 0 < n"
proof (induction i arbitrary: c buf)
  case 0
  then show ?case by simp
next
  case (Suc i)
  then show ?case
    by (auto split: prod.splits if_splits option.splits)
qed

text \<open>
  \<^verbatim>\<open>recvPeek\<close>: read until \<open>buf\<close> is full. The slice \<^verbatim>\<open>buf[offset:]\<close> shares
  its storage with \<open>buf\<close>, so what \<^verbatim>\<open>recvFill\<close> stores lands in \<open>buf\<close> from
  \<open>offset\<close> on.
\<close>

function recvPeek_loop :: "client \<Rightarrow> byte list \<Rightarrow> nat \<Rightarrow> unit res \<times> client \<times> byte list" where
  "recvPeek_loop c buf offset =
     (if offset < length buf
      then (case recvFill c (drop offset buf) of
              (r, c', sub) \<Rightarrow>
                (case r of
                   Ok n \<Rightarrow> recvPeek_loop c' (take offset buf @ sub) (offset + nat n)
                 | Fail e \<Rightarrow> (Fail e, c', take offset buf @ sub)
                 | Panic p \<Rightarrow> (Panic p, c', take offset buf @ sub)))
      else (Ok (), c, buf))"
  by pat_completeness auto
termination
proof (relation "measure (\<lambda>(c, buf, offset). length buf - offset)")
  show "wf (measure (\<lambda>(c :: client, buf :: byte list, offset :: nat). length buf - offset))"
    by simp
next
  fix c :: client and buf :: "byte list" and offset :: nat
    and r :: "int res" and y :: "client \<times> byte list" and c' sub n
  assume lt: "offset < length buf"
    and x: "(r, y) = recvFill c (drop offset buf)" "(c', sub) = y" "r = Ok n"
  then have fill: "recvFill_loop messageMaxConsecutiveEmptyReads c (drop offset buf) = (Ok n, c', sub)"
    by (simp add: recvFill_def)
  have "0 < n" using fill by (rule recvFill_loop_pos)
  moreover have "length sub = length buf - offset"
    using recvFill_loop_length [OF fill] by simp
  ultimately show "((c', take offset buf @ sub, offset + nat n), (c, buf, offset))
      \<in> measure (\<lambda>(c, buf, offset). length buf - offset)"
    using lt by simp
qed

definition recvPeek :: "client \<Rightarrow> byte list \<Rightarrow> unit res \<times> client \<times> byte list" where
  "recvPeek c buf = recvPeek_loop c buf 0"

text \<open>
  \<^verbatim>\<open>recvHeader\<close>: fill the header block, then decode the four fields from it, in
  the order of the source; a block too short for a field panics at that field.
\<close>

definition recvHeader :: "client \<Rightarrow> message \<Rightarrow> unit res \<times> client \<times> message" where
  "recvHeader c res =
     (case recvPeek c (header res) of
        (r, c', h) \<Rightarrow>
          (let res0 = res\<lparr>header := h\<rparr> in
           case r of
             Fail e \<Rightarrow> (Fail (Wrap e ''failed to receive header''), c', res0)
           | Panic p \<Rightarrow> (Panic p, c', res0)
           | Ok u \<Rightarrow>
               (case le_Uint32 h of
                  Inl p \<Rightarrow> (Panic p, c', res0)
                | Inr w \<Rightarrow>
                    (let res1 = res0\<lparr>words := w\<rparr> in
                     case index_at h 4 of
                       Inl p \<Rightarrow> (Panic p, c', res1)
                     | Inr t \<Rightarrow>
                         (let res2 = res1\<lparr>mtype := t\<rparr> in
                          case index_at h 5 of
                            Inl p \<Rightarrow> (Panic p, c', res2)
                          | Inr f \<Rightarrow>
                              (let res3 = res2\<lparr>flags := f\<rparr> in
                               case slice_from h 6 of
                                 Inl p \<Rightarrow> (Panic p, c', res3)
                               | Inr t6 \<Rightarrow>
                                   (case le_Uint16 t6 of
                                      Inl p \<Rightarrow> (Panic p, c', res3)
                                    | Inr x \<Rightarrow> (Ok (), c', res3\<lparr>extra := x\<rparr>))))))))"

text \<open>
  Go's \<^verbatim>\<open>int\<close> is 32 bits wide on some platforms (386, arm) and 64 bits wide on
  the others. \<open>go_int sz x\<close> is the value an \<^verbatim>\<open>int\<close> of that width holds after
  a conversion or an arithmetic operation whose mathematical result is \<open>x\<close>: the result
  wraps around in two's complement.
\<close>

datatype int_size = Int32 | Int64

definition int_bits :: "int_size \<Rightarrow> nat" where
  "int_bits sz = (case sz of Int32 \<Rightarrow> 32 | Int64 \<Rightarrow> 64)"

definition go_int :: "int_size \<Rightarrow> int \<Rightarrow> int" where
  "go_int sz x =
     (let m = x mod 2 ^ int_bits sz
      in if m < 2 ^ (int_bits sz - 1) then m else m - 2 ^ int_bits sz)"

text \<open>
  \<^verbatim>\<open>recvBody\<close>: \<open>n\<close> is \<^verbatim>\<open>int(res.words) * messageWordSize\<close>, computed in
  the \<^verbatim>\<open>int\<close> of the platform: the conversion and the product both wrap around.
  The primary buffer is sliced to \<open>n\<close> bytes with no check of \<open>n\<close> against its size
  (a negative \<open>n\<close> or one above the size panics), and what is read lands in its first
  \<open>n\<close> bytes.
\<close>

definition recvBody :: "int_size \<Rightarrow> client \<Rightarrow> message \<Rightarrow> unit res \<times> client \<times> message" where
  "recvBody sz c res =
     (let n = go_int sz (go_int sz (int (unat (words res))) * messageWordSize) in
      case slice_to (Bytes (body1 res)) n of
        Inl p \<Rightarrow> (Panic p, c, res)
      | Inr buf \<Rightarrow>
          (case recvPeek c buf of
             (r, c', buf') \<Rightarrow>
               (let res' = res\<lparr>body1 := (body1 res)\<lparr>Bytes := store_to (Bytes (body1 res)) buf'\<rparr>\<rparr> in
                case r of
                  Fail e \<Rightarrow> (Fail (Wrap e ''failed to read body''), c', res')
                | Panic p \<Rightarrow> (Panic p, c', res')
                | Ok u \<Rightarrow> (Ok (), c', res'))))"

definition recv :: "int_size \<Rightarrow> client \<Rightarrow> message \<Rightarrow> unit res \<times> client \<times> message" where
  "recv sz c res =
     (case recvHeader c res of
        (r, c', res') \<Rightarrow>
          (case r of
             Fail e \<Rightarrow> (Fail (Wrap e ''failed to receive header''), c', res')
           | Panic p \<Rightarrow> (Panic p, c', res')
           | Ok u \<Rightarrow>
               (case recvBody sz c' res' of
                  (r2, c2, res2) \<Rightarrow>
                    (case r2 of
                       Fail e \<Rightarrow> (Fail (Wrap e ''failed to receive body''), c2, res2)
                     | Panic p \<Rightarrow> (Panic p, c2, res2)
                     | Ok u \<Rightarrow> (Ok (), c2, res2)))))"

subsection \<open>Sending\<close>

text \<open>
  \<^verbatim>\<open>sendHeader\<close>: one write of the header block; the count is compared with
  \<^verbatim>\<open>messageHeaderSize\<close>.
\<close>

definition sendHeader :: "client \<Rightarrow> message \<Rightarrow> unit res \<times> client" where
  "sendHeader c req =
     (case conn_Write (conn c) (header req) of
        ((n, e), k) \<Rightarrow>
          (case e of
             Some x \<Rightarrow> (Fail (Wrap x ''failed to send header''), c\<lparr>conn := k\<rparr>)
           | None \<Rightarrow>
               (if n \<noteq> messageHeaderSize
                then (Fail (Wrap ErrShortWrite ''failed to send header''), c\<lparr>conn := k\<rparr>)
                else (Ok (), c\<lparr>conn := k\<rparr>))))"

text \<open>
  \<^verbatim>\<open>sendBody\<close>: one write of the valid part of the primary buffer, then, unless
  the overflow buffer is nil, one write of its valid part.
\<close>

definition sendBody :: "client \<Rightarrow> message \<Rightarrow> unit res \<times> client" where
  "sendBody c req =
     (case slice_to (Bytes (body1 req)) (Offset (body1 req)) of
        Inl p \<Rightarrow> (Panic p, c)
      | Inr buf \<Rightarrow>
          (case conn_Write (conn c) buf of
             ((n, e), k) \<Rightarrow>
               (case e of
                  Some x \<Rightarrow> (Fail (Wrap x ''failed to send static body''), c\<lparr>conn := k\<rparr>)
                | None \<Rightarrow>
                    (if n \<noteq> int (length buf)
                     then (Fail (Wrap ErrShortWrite ''failed to write body''), c\<lparr>conn := k\<rparr>)
                     else if Bytes (body2 req) = None then (Ok (), c\<lparr>conn := k\<rparr>)
                     else (case slice_to (Bytes (body2 req)) (Offset (body2 req)) of
                             Inl p \<Rightarrow> (Panic p, c\<lparr>conn := k\<rparr>)
                           | Inr buf2 \<Rightarrow>
                               (case conn_Write k buf2 of
                                  ((n2, e2), k2) \<Rightarrow>
                                    (case e2 of
                                       Some x \<Rightarrow>
                                         (Fail (Wrap x ''failed to send dynamic body''), c\<lparr>conn := k2\<rparr>)
                                     | None \<Rightarrow>
                                         (if n2 \<noteq> int (length buf2)
                                          then (Fail (Wrap ErrShortWrite ''failed to write body''),
                                                c\<lparr>conn := k2\<rparr>)
                                          else (Ok (), c\<lparr>conn := k2\<rparr>)))))))))"

definition send :: "client \<Rightarrow> message \<Rightarrow> unit res \<times> client" where
  "send c req =
     (case sendHeader c req of
        (r, c') \<Rightarrow>
          (case r of
             Fail e \<Rightarrow> (Fail (Wrap e ''failed to send header''), c')
           | Panic p \<Rightarrow> (Panic p, c')
           | Ok u \<Rightarrow>
               (case sendBody c' req of
                  (r2, c2) \<Rightarrow>
                    (case r2 of
                       Fail e \<Rightarrow> (Fail (Wrap e ''failed to send body''), c2)
                     | Panic p \<Rightarrow> (Panic p, c2)
                     | Ok u \<Rightarrow> (Ok (), c2)))))"

subsection \<open>Call\<close>

text \<open>
  The \<^verbatim>\<open>context.Context\<close> handed to \<^verbatim>\<open>Call\<close>: its deadline, if any, and whether
  it has been cancelled.
\<close>

record ctx =
  deadline :: "nat option"
  cancelled :: bool

text \<open>
  \<^verbatim>\<open>Call\<close>: lock the mutex, send, receive; the deferred unlock runs on every way
  out, a panic included. With the mutex already held and nobody else running, the lock
  never returns: the value is \<open>None\<close>.
\<close>

definition Call :: "int_size \<Rightarrow> ctx \<Rightarrow> client \<Rightarrow> message \<Rightarrow> message \<Rightarrow> (unit res \<times> client \<times> message) option" where
  "Call sz cx c request response =
     (if mu c then None
      else (case send (c\<lparr>mu := True\<rparr>) request of
              (r, c1) \<Rightarrow>
                (case r of
                   Fail e \<Rightarrow> Some (Fail (Wrap e ''failed to send request''), c1\<lparr>mu := False\<rparr>, response)
                 | Panic p \<Rightarrow> Some (Panic p, c1\<lparr>mu := False\<rparr>, response)
                 | Ok u \<Rightarrow>
                     (case recv sz c1 response of
                        (r2, c2, response') \<Rightarrow>
                          (case r2 of
                             Fail e \<Rightarrow>
                               Some (Fail (Wrap e ''failed to receive response''), c2\<lparr>mu := False\<rparr>,
                                     response')
                           | Panic p \<Rightarrow> Some (Panic p, c2\<lparr>mu := False\<rparr>, response')
                           | Ok u \<Rightarrow> Some (Ok (), c2\<lparr>mu := False\<rparr>, response'))))))"

subsection \<open>The heartbeat\<close>

text \<open>
  The \<^verbatim>\<open>ServerStore\<close> is an interface declared outside client.go. Its behaviour is
  given by a script, as for the connection: \<open>set_results\<close> lists what the coming calls
  of \<^verbatim>\<open>Set\<close> return (with no entry left, \<^verbatim>\<open>Set\<close> succeeds), and \<open>sets\<close>
  records every call of \<^verbatim>\<open>Set\<close> with its arguments, oldest first.
\<close>

record server_store =
  set_results :: "err option list"
  sets :: "(ctx \<times> string list) list"

definition store_Set :: "server_store \<Rightarrow> ctx \<Rightarrow> string list \<Rightarrow> err option \<times> server_store" where
  "store_Set s cx addresses =
     (case set_results s of
        [] \<Rightarrow> (None, s\<lparr>sets := sets s @ [(cx, addresses)]\<rparr>)
      | e # es \<Rightarrow> (e, s\<lparr>set_results := es, sets := sets s @ [(cx, addresses)]\<rparr>))"

text \<open>
  \<open>Message_zero\<close> is the zero value \<^verbatim>\<open>Message{}\<close>.
\<close>

definition Message_zero :: message where
  "Message_zero = \<lparr>words = 0, mtype = 0, flags = 0, extra = 0, header = [],
                    body1 = \<lparr>Bytes = None, Offset = 0\<rparr>, body2 = \<lparr>Bytes = None, Offset = 0\<rparr>\<rparr>"

text \<open>
  Modelled from the spec: \<^verbatim>\<open>Message.Init\<close> is declared outside client.go. It
  allocates the primary body storage with the given capacity and clears the header and
  the offsets.
\<close>

definition Init :: "message \<Rightarrow> nat \<Rightarrow> message" where
  "Init m capacity =
     m\<lparr>words := 0, mtype := 0, flags := 0, extra := 0,
       header := replicate (nat messageHeaderSize) 0,
       body1 := \<lparr>Bytes = Some (replicate capacity 0), Offset = 0\<rparr>,
       body2 := \<lparr>Bytes = None, Offset = 0\<rparr>\<rparr>"

text \<open>
  One turn of the loop meets a \<open>tick\<close> of the environment: whether
  \<^verbatim>\<open>closeCh\<close> has been closed by the time the loop wakes up, and the Unix time
  that \<^verbatim>\<open>time.Now\<close> reports. The state of the loop is the client, the store and the
  two messages it reuses. A loop ends by returning, by a panic or by waiting for the
  mutex for ever.
\<close>

record tick =
  closing :: bool
  unix_now :: "64 word"

record hb =
  hb_client :: client
  hb_store :: server_store
  hb_request :: message
  hb_response :: message

datatype hb_end = Returned | Crashed panic | Blocked

text \<open>
  The context of one turn: \<^verbatim>\<open>context.WithTimeout(context.Background(), time.Second)\<close>.
\<close>

definition hb_ctx :: "tick \<Rightarrow> ctx" where
  "hb_ctx t = \<lparr>deadline = Some (unat (unix_now t) + 1), cancelled = False\<rparr>"

text \<open>
  The body of the loop. \<^verbatim>\<open>EncodeHeartbeat\<close> and \<^verbatim>\<open>DecodeServers\<close> are declared
  outside client.go and are the parameters \<open>enc\<close> and \<open>dec\<close>. The result is
  \<open>None\<close> when the loop goes on to its next turn. The context is cancelled before the
  store is called.
\<close>

definition heartbeat_iter ::
  "int_size \<Rightarrow> (message \<Rightarrow> 64 word \<Rightarrow> message) \<Rightarrow> (message \<Rightarrow> (err + string list) \<times> message) \<Rightarrow>
   tick \<Rightarrow> hb \<Rightarrow> hb_end option \<times> hb" where
  "heartbeat_iter sz enc dec t s =
     (let c = (hb_client s)\<lparr>closeCh := closeCh (hb_client s) \<or> closing t\<rparr> in
      if closeCh c then (Some Returned, s\<lparr>hb_client := c\<rparr>)
      else
        (let cx = hb_ctx t;
             req = enc (hb_request s) (unix_now t) in
         case Call sz cx c req (hb_response s) of
           None \<Rightarrow> (Some Blocked, s\<lparr>hb_client := c, hb_request := req\<rparr>)
         | Some (r, c', resp) \<Rightarrow>
             (let cx' = cx\<lparr>cancelled := True\<rparr>;
                  s1 = s\<lparr>hb_client := c', hb_request := req, hb_response := resp\<rparr> in
              case r of
                Panic p \<Rightarrow> (Some (Crashed p), s1)
              | Fail e \<Rightarrow> (Some Returned, s1)
              | Ok u \<Rightarrow>
                  (case dec resp of
                     (Inl e, resp') \<Rightarrow> (Some Returned, s1\<lparr>hb_response := resp'\<rparr>)
                   | (Inr addresses, resp') \<Rightarrow>
                       (case store_Set (hb_store s1) cx' addresses of
                          (Some e, st') \<Rightarrow>
                            (Some Returned, s1\<lparr>hb_response := resp', hb_store := st'\<rparr>)
                        | (None, st') \<Rightarrow> (None, s1\<lparr>hb_response := resp', hb_store := st'\<rparr>))))))"

text \<open>
  The loop runs for ever unless a turn ends it, so it is given the list of ticks it
  meets: the result is \<open>None\<close> when it is still running after the last of them.
  \<open>heartbeat\<close> is the function of the source: it sets up the two messages and enters
  the loop.
\<close>

fun heartbeat_loop ::
  "int_size \<Rightarrow> (message \<Rightarrow> 64 word \<Rightarrow> message) \<Rightarrow> (message \<Rightarrow> (err + string list) \<times> message) \<Rightarrow>
   tick list \<Rightarrow> hb \<Rightarrow> hb_end option \<times> hb" where
  "heartbeat_loop sz enc dec [] s = (None, s)"
| "heartbeat_loop sz enc dec (t # ts) s =
     (case heartbeat_iter sz enc dec t s of
        (Some e, s') \<Rightarrow> (Some e, s')
      | (None, s') \<Rightarrow> heartbeat_loop sz enc dec ts s')"

definition heartbeat ::
  "int_size \<Rightarrow> (message \<Rightarrow> 64 word \<Rightarrow> message) \<Rightarrow> (message \<Rightarrow> (err + string list) \<times> message) \<Rightarrow>
   tick list \<Rightarrow> client \<Rightarrow> server_store \<Rightarrow> hb_end option \<times> hb" where
  "heartbeat sz enc dec ticks c store =
     heartbeat_loop sz enc dec ticks
       \<lparr>hb_client = c, hb_store = store,
        hb_request = Init Message_zero 16, hb_response = Init Message_zero 512\<rparr>"

subsection \<open>Observations on the connection\<close>

text \<open>
  \<open>pending\<close> is the sequence of bytes a read script still holds, in the order in which
  the stream delivers them.
\<close>

fun pending :: "read_ev list \<Rightarrow> byte list" where
  "pending [] = []"
| "pending (ReadEv bs e # evs) = bs @ pending evs"
| "pending (ReadNeg # evs) = pending evs"

text \<open>
  The size of a buffer: the length of its slice, 0 for the nil slice.
\<close>

definition buffer_len :: "buffer \<Rightarrow> nat" where
  "buffer_len b = (case Bytes b of None \<Rightarrow> 0 | Some xs \<Rightarrow> length xs)"

text \<open>
  \<open>body_bytes sz res\<close> is the byte count \<^verbatim>\<open>recvBody\<close> computes for the message on
  a platform of that \<^verbatim>\<open>int\<close> width. \<open>fits sz k\<close> says that \<open>k\<close> is a value of that
  \<^verbatim>\<open>int\<close>: an arithmetic result \<open>k\<close> does not wrap around.
\<close>

definition body_bytes :: "int_size \<Rightarrow> message \<Rightarrow> int" where
  "body_bytes sz res = go_int sz (go_int sz (int (unat (words res))) * messageWordSize)"

definition fits :: "int_size \<Rightarrow> nat \<Rightarrow> bool" where
  "fits sz k = (int k < 2 ^ (int_bits sz - 1))"

text \<open>
  \<open>spaced k chunks\<close> is the read script that delivers the chunks in order, each after
  \<open>k\<close> reads that return no byte and no error.
\<close>

fun spaced :: "nat \<Rightarrow> byte list list \<Rightarrow> read_ev list" where
  "spaced k [] = []"
| "spaced k (ch # chs) = replicate k (ReadEv [] None) @ ReadEv ch None # spaced k chs"

text \<open>
  \<open>placed\<close> counts the bytes that the reads of a log handed over: a read counts with
  its byte count when it reported no error and a positive count, which is when
  \<^verbatim>\<open>recvPeek\<close> advances its offset. \<open>is_read\<close> and \<open>is_write\<close> tell the two
  kinds of call apart.
\<close>

fun placed :: "op list \<Rightarrow> nat" where
  "placed [] = 0"
| "placed (OpRead k n e # ops) = (if e = None \<and> 0 < n then nat n else 0) + placed ops"
| "placed (OpWrite b n e # ops) = placed ops"

fun is_read :: "op \<Rightarrow> bool" where
  "is_read (OpRead k n e) = True"
| "is_read (OpWrite b n e) = False"

fun is_write :: "op \<Rightarrow> bool" where
  "is_write (OpRead k n e) = False"
| "is_write (OpWrite b n e) = True"

subsection \<open>Example inputs\<close>

text \<open>
  A client whose stream delivers a header in two short reads with an empty read between
  them, and a message with an 8-byte header block and a 16-byte primary buffer.
\<close>

definition hdr_client :: client where
  "hdr_client = \<lparr>address = ''10.0.0.1:9000'',
         conn = \<lparr>inbox = [ReadEv [2, 1, 0] None, ReadEv [] None, ReadEv [0, 5, 1, 7, 3, 9, 9] None], outbox = [], log = []\<rparr>,
         heartbeatTimeout = 1, closeCh = False, mu = False\<rparr>"

definition hdr_msg :: message where
  "hdr_msg = \<lparr>words = 0, mtype = 0, flags = 0, extra = 0, header = replicate 8 0,
         body1 = \<lparr>Bytes = Some (replicate 16 0), Offset = 0\<rparr>,
         body2 = \<lparr>Bytes = None, Offset = 0\<rparr>\<rparr>"



text \<open>
  Three more clients: one whose stream hands over one byte and then two bytes together
  with \<^verbatim>\<open>io.EOF\<close>, one whose stream opens with as many empty reads as
  \<^verbatim>\<open>recvFill\<close> attempts, and one whose stream puts 99 empty reads before each chunk.
\<close>

definition eof_client :: client where
  "eof_client = \<lparr>address = ''10.0.0.1:9000'',
         conn = \<lparr>inbox = [ReadEv [1] None, ReadEv [2, 3] (Some EOF)], outbox = [], log = []\<rparr>,
         heartbeatTimeout = 1, closeCh = False, mu = False\<rparr>"

definition idle_client :: client where
  "idle_client = \<lparr>address = ''10.0.0.1:9000'',
         conn = \<lparr>inbox = replicate messageMaxConsecutiveEmptyReads (ReadEv [] None) @ [ReadEv [1, 2, 3] None],
                  outbox = [], log = []\<rparr>,
         heartbeatTimeout = 1, closeCh = False, mu = False\<rparr>"

definition slow_client :: client where
  "slow_client = \<lparr>address = ''10.0.0.1:9000'',
         conn = \<lparr>inbox = spaced 99 [[1], [2, 3]], outbox = [], log = []\<rparr>,
         heartbeatTimeout = 1, closeCh = False, mu = False\<rparr>"

text \<open>
  A client whose stream holds ten bytes, and the message with a given word count and a
  16-byte primary buffer.
\<close>

definition wrap_client :: client where
  "wrap_client = \<lparr>address = ''10.0.0.1:9000'',
         conn = \<lparr>inbox = [ReadEv [1, 2, 3, 4, 5, 6, 7, 8, 9, 10] None], outbox = [], log = []\<rparr>,
         heartbeatTimeout = 1, closeCh = False, mu = False\<rparr>"

definition wrap_msg :: "32 word \<Rightarrow> message" where
  "wrap_msg w = \<lparr>words = w, mtype = 5, flags = 0, extra = 0, header = replicate 8 0,
         body1 = \<lparr>Bytes = Some (replicate 16 0), Offset = 0\<rparr>,
         body2 = \<lparr>Bytes = None, Offset = 0\<rparr>\<rparr>"

text \<open>
  A request with an 8-byte header block, 8 valid bytes in the primary buffer and 8 valid
  bytes in the overflow buffer, and a client whose connection answers its writes as a
  given script says.
\<close>

definition send_msg :: message where
  "send_msg = \<lparr>words = 2, mtype = 5, flags = 0, extra = 0, header = [2, 0, 0, 0, 5, 0, 0, 0],
         body1 = \<lparr>Bytes = Some [1, 2, 3, 4, 5, 6, 7, 8, 0, 0, 0, 0], Offset = 8\<rparr>,
         body2 = \<lparr>Bytes = Some [9, 10, 11, 12, 13, 14, 15, 16, 0, 0], Offset = 8\<rparr>\<rparr>"

definition send_client :: "write_ev list \<Rightarrow> client" where
  "send_client ws = \<lparr>address = ''10.0.0.1:9000'',
         conn = \<lparr>inbox = [], outbox = ws, log = []\<rparr>,
         heartbeatTimeout = 1, closeCh = False, mu = False\<rparr>"

text \<open>
  A client whose stream delivers a header announcing two words and then only three bytes
  of body, the state in which a call leaves it, and two contexts: one with no deadline
  and one that is expired and cancelled.
\<close>

definition call_client :: client where
  "call_client = \<lparr>address = ''10.0.0.1:9000'',
         conn = \<lparr>inbox = [ReadEv [2, 0, 0, 0, 5, 0, 0, 0] None, ReadEv [1, 2, 3] None],
                  outbox = [], log = []\<rparr>,
         heartbeatTimeout = 1, closeCh = False, mu = False\<rparr>"

definition no_ctx :: ctx where
  "no_ctx = \<lparr>deadline = None, cancelled = False\<rparr>"

definition expired_ctx :: ctx where
  "expired_ctx = \<lparr>deadline = Some 0, cancelled = True\<rparr>"

definition call_client_after :: client where
  "call_client_after = call_client\<lparr>conn := \<lparr>inbox = [], outbox = [],
           log = [OpWrite [2, 0, 0, 0, 5, 0, 0, 0] 8 None,
                  OpWrite [1, 2, 3, 4, 5, 6, 7, 8] 8 None,
                  OpWrite [9, 10, 11, 12, 13, 14, 15, 16] 8 None,
                  OpRead 8 8 None, OpRead 16 3 None, OpRead 13 0 (Some EOF)]\<rparr>\<rparr>"

text \<open>
  Stand-ins for the two codecs, and a heartbeat whose connection answers the first call
  with an empty list message of type 3 and then reaches the end of the stream; the
  states after the first and after the second turn.
\<close>

definition example_enc :: "message \<Rightarrow> 64 word \<Rightarrow> message" where
  "example_enc m ts =
     m\<lparr>words := 1, mtype := 2, header := [1, 0, 0, 0, 2, 0, 0, 0],
       body1 := \<lparr>Bytes = Some (replicate 16 (ucast ts)), Offset = 8\<rparr>\<rparr>"

definition example_dec :: "message \<Rightarrow> (err + string list) \<times> message" where
  "example_dec m =
     (if mtype m = 3 then (Inr [''10.0.0.1:9000'', ''10.0.0.2:9000''], m)
      else (Inl (Other ''unexpected response''), m))"

definition hb_start :: hb where
  "hb_start =
     \<lparr>hb_client = \<lparr>address = ''10.0.0.1:9000'',
                    conn = \<lparr>inbox = [ReadEv [0, 0, 0, 0, 3, 0, 0, 0] None], outbox = [], log = []\<rparr>,
                    heartbeatTimeout = 1, closeCh = False, mu = False\<rparr>,
      hb_store = \<lparr>set_results = [], sets = []\<rparr>,
      hb_request = Init Message_zero 16, hb_response = Init Message_zero 8\<rparr>"

definition tick1 :: tick where "tick1 = \<lparr>closing = False, unix_now = 7\<rparr>"
definition tick2 :: tick where "tick2 = \<lparr>closing = False, unix_now = 8\<rparr>"

definition hb_after_first :: hb where
  "hb_after_first =
     \<lparr>hb_client = \<lparr>address = ''10.0.0.1:9000'',
                    conn = \<lparr>inbox = [], outbox = [],
                             log = [OpWrite [1, 0, 0, 0, 2, 0, 0, 0] 8 None,
                                    OpWrite [7, 7, 7, 7, 7, 7, 7, 7] 8 None, OpRead 8 8 None]\<rparr>,
                    heartbeatTimeout = 1, closeCh = False, mu = False\<rparr>,
      hb_store = \<lparr>set_results = [],
                   sets = [(\<lparr>deadline = Some 8, cancelled = True\<rparr>,
                            [''10.0.0.1:9000'', ''10.0.0.2:9000''])]\<rparr>,
      hb_request = \<lparr>words = 1, mtype = 2, flags = 0, extra = 0, header = [1, 0, 0, 0, 2, 0, 0, 0],
                     body1 = \<lparr>Bytes = Some (replicate 16 7), Offset = 8\<rparr>,
                     body2 = \<lparr>Bytes = None, Offset = 0\<rparr>\<rparr>,
      hb_response = \<lparr>words = 0, mtype = 3, flags = 0, extra = 0, header = [0, 0, 0, 0, 3, 0, 0, 0],
                      body1 = \<lparr>Bytes = Some (replicate 8 0), Offset = 0\<rparr>,
                      body2 = \<lparr>Bytes = None, Offset = 0\<rparr>\<rparr>\<rparr>"

definition hb_after_second :: hb where
  "hb_after_second =
     hb_after_first
       \<lparr>hb_client := (hb_client hb_after_first)
          \<lparr>conn := \<lparr>inbox = [], outbox = [],
                     log = [OpWrite [1, 0, 0, 0, 2, 0, 0, 0] 8 None,
                            OpWrite [7, 7, 7, 7, 7, 7, 7, 7] 8 None, OpRead 8 8 None,
                            OpWrite [1, 0, 0, 0, 2, 0, 0, 0] 8 None,
                            OpWrite [8, 8, 8, 8, 8, 8, 8, 8] 8 None, OpRead 8 0 (Some EOF)]\<rparr>\<rparr>,
        hb_request := (hb_request hb_after_first)\<lparr>body1 := \<lparr>Bytes = Some (replicate 16 8), Offset = 8\<rparr>\<rparr>\<rparr>"

section \<open>Properties\<close>

subsection \<open>Little-endian decoding\<close>

text \<open>
  The shifts and ors of \<^verbatim>\<open>Uint32\<close> and \<^verbatim>\<open>Uint16\<close> compute the positional
  value of the bytes, lowest byte first.
\<close>

lemma nat_or_push: "a < 2 ^ n \<Longrightarrow> (a::nat) OR push_bit n b = a + 2 ^ n * b"
proof -
  assume a: "a < 2 ^ n"
  have "a AND push_bit n b = 0"
  proof (rule bit_eqI)
    fix m
    show "bit (a AND push_bit n b) m = bit (0::nat) m"
    proof (cases "n \<le> m")
      case True
      then have "a < 2 ^ m" using a
        by (meson le_less_trans not_less power_increasing_iff one_less_numeral_iff semiring_norm(76) less_le_trans)
      then have "\<not> bit a m" by (simp add: bit_iff_odd)
      then show ?thesis by (simp add: bit_and_iff)
    next
      case False
      then show ?thesis by (simp add: bit_and_iff bit_push_bit_iff)
    qed
  qed
  then have "a + push_bit n b = a OR push_bit n b"
    by (rule disjunctive_add_eq_or)
  then show ?thesis by (simp add: push_bit_eq_mult mult.commute)
qed

lemma unat_push_ucast32: "k \<le> 24 \<Longrightarrow> unat (push_bit k (ucast (b :: 8 word)) :: 32 word) = push_bit k (unat b)"
proof -
  assume k: "k \<le> 24"
  have "unat b < 2 ^ 8" using unsigned_less [where 'a = nat, of b] by simp
  then have "push_bit k (unat b) < 2 ^ k * 2 ^ 8" by (simp add: push_bit_eq_mult)
  also have "\<dots> = 2 ^ (k + 8)" by (simp add: power_add)
  also have "\<dots> \<le> (2::nat) ^ 32" using k by (intro power_increasing) simp_all
  finally have lt: "push_bit k (unat b) < 2 ^ 32" .
  have "unat b < 2 ^ 32" using unsigned_less [where 'a = nat, of b] by simp
  then have "unat (ucast b :: 32 word) = unat b"
    by (simp add: unsigned_ucast_eq take_bit_nat_eq_self)
  then show ?thesis
    using lt by (simp add: unsigned_push_bit_eq take_bit_nat_eq_self)
qed

lemma or32: "unat (ucast (a :: 8 word) OR push_bit 8 (ucast (b :: 8 word)) OR push_bit 16 (ucast (c :: 8 word)) OR push_bit 24 (ucast (d :: 8 word)) :: 32 word)
   = unat a + 256 * unat b + 65536 * unat c + 16777216 * unat d"
proof -
  have a: "unat a < 2 ^ 8" and b: "unat b < 2 ^ 8" and c: "unat c < 2 ^ 8"
    using unsigned_less [where 'a = nat, of a] unsigned_less [where 'a = nat, of b]
      unsigned_less [where 'a = nat, of c] by simp_all
  have "unat a < 2 ^ 32" using a by simp
  then have ua: "unat (ucast a :: 32 word) = unat a"
    by (simp add: unsigned_ucast_eq take_bit_nat_eq_self)
  have s1: "unat a OR push_bit 8 (unat b) = unat a + 2 ^ 8 * unat b"
    using a by (rule nat_or_push)
  have "unat a + 2 ^ 8 * unat b < 2 ^ 16" using a b by simp
  then have s2: "(unat a + 2 ^ 8 * unat b) OR push_bit 16 (unat c) = (unat a + 2 ^ 8 * unat b) + 2 ^ 16 * unat c"
    by (rule nat_or_push)
  have "(unat a + 2 ^ 8 * unat b) + 2 ^ 16 * unat c < 2 ^ 24" using a b c by simp
  then have s3: "((unat a + 2 ^ 8 * unat b) + 2 ^ 16 * unat c) OR push_bit 24 (unat d) = ((unat a + 2 ^ 8 * unat b) + 2 ^ 16 * unat c) + 2 ^ 24 * unat d"
    by (rule nat_or_push)
  have "unat (ucast a OR push_bit 8 (ucast b) OR push_bit 16 (ucast c) OR push_bit 24 (ucast d) :: 32 word)
      = ((unat a OR push_bit 8 (unat b)) OR push_bit 16 (unat c)) OR push_bit 24 (unat d)"
    by (simp add: unsigned_or_eq unat_push_ucast32 ua or.assoc)
  then show ?thesis
    using s1 s2 s3 by simp
qed

lemma or16:
  "unat (ucast (a :: 8 word) OR push_bit 8 (ucast (b :: 8 word)) :: 16 word) = unat a + 256 * unat b"
proof -
  have a: "unat a < 2 ^ 8" and b: "unat b < 2 ^ 8"
    using unsigned_less [where 'a = nat, of a] unsigned_less [where 'a = nat, of b] by simp_all
  have "unat a < 2 ^ 16" using a by simp
  then have ua: "unat (ucast a :: 16 word) = unat a"
    by (simp add: unsigned_ucast_eq take_bit_nat_eq_self)
  have "unat b < 2 ^ 16" using b by simp
  then have ub: "unat (ucast b :: 16 word) = unat b"
    by (simp add: unsigned_ucast_eq take_bit_nat_eq_self)
  have "push_bit 8 (unat b) < 2 ^ 16" using b by (simp add: push_bit_eq_mult)
  then have pb: "unat (push_bit 8 (ucast b) :: 16 word) = push_bit 8 (unat b)"
    by (simp add: unsigned_push_bit_eq ub take_bit_nat_eq_self)
  have "unat a OR push_bit 8 (unat b) = unat a + 2 ^ 8 * unat b"
    using a by (rule nat_or_push)
  then show ?thesis by (simp add: unsigned_or_eq ua pb)
qed

subsection \<open>Bytes taken from the stream\<close>

text \<open>
  A successful \<^verbatim>\<open>recvPeek\<close> takes exactly the bytes it returns from the front of
  the pending bytes of the stream.
\<close>

lemma conn_Read_ok:
  assumes "conn_Read k buf = ((n, None), k', buf')" and "0 \<le> n"
  shows "nat n \<le> length buf"
    and "pending (inbox k) = take (nat n) buf' @ pending (inbox k')"
    and "drop (nat n) buf' = drop (nat n) buf"
    and "outbox k' = outbox k"
  using assms
  by (auto simp: conn_Read_def split: list.splits read_ev.splits if_splits)

lemma recvFill_loop_ok:
  "recvFill_loop i c buf = (Ok n, c', buf') \<Longrightarrow>
     nat n \<le> length buf \<and> pending (inbox (conn c)) = take (nat n) buf' @ pending (inbox (conn c'))
     \<and> drop (nat n) buf' = drop (nat n) buf"
proof (induction i arbitrary: c buf)
  case 0
  then show ?case by simp
next
  case (Suc i)
  obtain m e k b where rd: "conn_Read (conn c) buf = ((m, e), k, b)"
    by (metis prod.exhaust)
  from Suc.prems rd have m0: "0 \<le> m" and e: "e = None"
    by (auto split: if_splits option.splits)
  note ok = conn_Read_ok [OF rd [unfolded e] m0]
  show ?case
  proof (cases "0 < m")
    case True
    then have "n = m" "c' = c\<lparr>conn := k\<rparr>" "buf' = b"
      using Suc.prems rd e by auto
    then show ?thesis using ok by simp
  next
    case False
    then have m: "m = 0" using m0 by simp
    then have rec: "recvFill_loop i (c\<lparr>conn := k\<rparr>) b = (Ok n, c', buf')"
      using Suc.prems rd e by simp
    have "b = buf" using ok(3) m by simp
    moreover have "pending (inbox (conn c)) = pending (inbox k)" using ok(2) m by simp
    ultimately show ?thesis using Suc.IH [OF rec] by simp
  qed
qed

lemma recvPeek_loop_ok:
  "recvPeek_loop c buf off = (Ok (), c', buf') \<Longrightarrow> off \<le> length buf \<Longrightarrow>
     length buf' = length buf \<and> take off buf' = take off buf
     \<and> pending (inbox (conn c)) = drop off buf' @ pending (inbox (conn c'))"
proof (induction c buf off rule: recvPeek_loop.induct)
  case (1 c buf offset)
  show ?case
  proof (cases "offset < length buf")
    case False
    then show ?thesis using "1.prems" by (simp add: recvPeek_loop.simps [of c buf offset])
  next
    case True
    obtain r c1 sub where fill: "recvFill c (drop offset buf) = (r, c1, sub)"
      by (metis prod.exhaust)
    from "1.prems"(1) True fill obtain n where r: "r = Ok n"
      and rec: "recvPeek_loop c1 (take offset buf @ sub) (offset + nat n) = (Ok (), c', buf')"
      by (cases r) (simp_all add: recvPeek_loop.simps [of c buf offset])
    have fl: "recvFill_loop messageMaxConsecutiveEmptyReads c (drop offset buf) = (Ok n, c1, sub)"
      using fill r by (simp add: recvFill_def)
    have len: "length sub = length buf - offset"
      using recvFill_loop_length [OF fl] by simp
    from recvFill_loop_ok [OF fl]
    have n: "nat n \<le> length buf - offset"
      and pend: "pending (inbox (conn c)) = take (nat n) sub @ pending (inbox (conn c1))"
      by simp_all
    have le: "offset + nat n \<le> length (take offset buf @ sub)"
      using True n len by simp
    from "1.IH" [OF True fill [symmetric] refl r rec le]
    have a: "length buf' = length (take offset buf @ sub)"
      and b: "take (offset + nat n) buf' = take (offset + nat n) (take offset buf @ sub)"
      and c: "pending (inbox (conn c1)) = drop (offset + nat n) buf' @ pending (inbox (conn c'))"
      by simp_all
    have l: "length buf' = length buf" using a len True by simp
    have b': "take (offset + nat n) buf' = take offset buf @ take (nat n) sub"
      using b True by simp
    have t: "take offset buf' = take offset buf"
    proof -
      have "take offset buf' = take offset (take (offset + nat n) buf')"
        by (simp add: min_def)
      also have "\<dots> = take offset buf" using True by (simp add: b')
      finally show ?thesis .
    qed
    have d: "drop offset buf' = take (nat n) sub @ drop (offset + nat n) buf'"
    proof -
      have "drop offset buf' = drop offset (take (offset + nat n) buf' @ drop (offset + nat n) buf')"
        by simp
      also have "\<dots> = drop offset (take offset buf @ take (nat n) sub) @ drop (offset + nat n) buf'"
        unfolding b' [symmetric] using l True n by (simp del: append_take_drop_id)
      also have "\<dots> = take (nat n) sub @ drop (offset + nat n) buf'"
        using True by simp
      finally show ?thesis .
    qed
    show ?thesis using l t d pend c by simp
  qed
qed

subsection \<open>Header decoding\<close>

text \<open>
  C1. Whenever the 8-byte header block has been received, \<^verbatim>\<open>recvHeader\<close> succeeds
  and the block \<open>h\<close> it leaves in the message is the next 8 bytes of the stream; the
  word count is the unsigned little-endian value of bytes 0 to 3 of \<open>h\<close>, the message
  type is byte 4, the flags are byte 5 and extra is the unsigned little-endian value of
  bytes 6 and 7. The body buffers are not touched.
\<close>

theorem recvHeader_layout:
  assumes len: "length (header res) = 8"
    and peek: "recvPeek c (header res) = (Ok (), c', h)"
  shows "case recvHeader c res of
           (r, c2, res') \<Rightarrow>
             r = Ok () \<and> c2 = c' \<and> header res' = h \<and> length h = 8
             \<and> pending (inbox (conn c)) = h @ pending (inbox (conn c'))
             \<and> unat (words res') = unat (h ! 0) + 256 * unat (h ! 1) + 65536 * unat (h ! 2)
                                    + 16777216 * unat (h ! 3)
             \<and> mtype res' = h ! 4
             \<and> flags res' = h ! 5
             \<and> unat (extra res') = unat (h ! 6) + 256 * unat (h ! 7)
             \<and> body1 res' = body1 res \<and> body2 res' = body2 res"
proof -
  from peek have loop: "recvPeek_loop c (header res) 0 = (Ok (), c', h)"
    by (simp add: recvPeek_def)
  from recvPeek_loop_ok [OF loop] len
  have h8: "length h = 8" and pend: "pending (inbox (conn c)) = h @ pending (inbox (conn c'))"
    by simp_all
  have w: "le_Uint32 h = Inr (ucast (h ! 0) OR push_bit 8 (ucast (h ! 1)) OR push_bit 16 (ucast (h ! 2))
      OR push_bit 24 (ucast (h ! 3)))"
    using h8 by (simp add: le_Uint32_def)
  have i4: "index_at h 4 = Inr (h ! 4)" and i5: "index_at h 5 = Inr (h ! 5)"
    using h8 by (simp_all add: index_at_def)
  have s6: "slice_from h 6 = Inr (drop 6 h)"
    using h8 by (simp add: slice_from_def)
  have x: "le_Uint16 (drop 6 h) = Inr (ucast (h ! 6) OR push_bit 8 (ucast (h ! 7)))"
    using h8 by (simp add: le_Uint16_def)
  show ?thesis
    using h8 pend by (simp add: recvHeader_def peek w i4 i5 s6 x or32 or16)
qed

theorem recvHeader_layout_witness:
  "length (header hdr_msg) = 8
   \<and> recvPeek hdr_client (header hdr_msg) = (Ok (), hdr_client\<lparr>conn := \<lparr>inbox = [ReadEv [9, 9] None], outbox = [],
        log = [OpRead 8 3 None, OpRead 5 0 None, OpRead 5 5 None]\<rparr>\<rparr>, [2, 1, 0, 0, 5, 1, 7, 3])
   \<and> fst (recvHeader hdr_client hdr_msg) = Ok ()
   \<and> unat (words (snd (snd (recvHeader hdr_client hdr_msg)))) = 258
   \<and> mtype (snd (snd (recvHeader hdr_client hdr_msg))) = 5
   \<and> flags (snd (snd (recvHeader hdr_client hdr_msg))) = 1
   \<and> unat (extra (snd (snd (recvHeader hdr_client hdr_msg)))) = 775"
proof -
  have len: "length (header hdr_msg) = 8" by code_simp
  have peek: "recvPeek hdr_client (header hdr_msg) = (Ok (), hdr_client\<lparr>conn := \<lparr>inbox = [ReadEv [9, 9] None], outbox = [],
        log = [OpRead 8 3 None, OpRead 5 0 None, OpRead 5 5 None]\<rparr>\<rparr>, [2, 1, 0, 0, 5, 1, 7, 3])"
    by code_simp
  note th = recvHeader_layout [OF len peek]
  show ?thesis using th len peek
    by (auto split: prod.splits)
qed

subsection \<open>What receiving leaves untouched, and what it logs\<close>

lemma placed_append: "placed (xs @ ys) = placed xs + placed ys"
  by (induction xs rule: placed.induct) simp_all

lemma conn_Read_log:
  "conn_Read k buf = ((n, e), k', buf') \<Longrightarrow>
     log k' = log k @ [OpRead (length buf) n e] \<and> n \<le> int (length buf) \<and> outbox k' = outbox k"
  by (auto simp: conn_Read_def split: list.splits read_ev.splits if_splits)

lemma recvFill_loop_frame:
  "recvFill_loop i c buf = (r, c', buf') \<Longrightarrow>
     c' = c\<lparr>conn := conn c'\<rparr> \<and> outbox (conn c') = outbox (conn c)
     \<and> (\<exists>new. log (conn c') = log (conn c) @ new \<and> list_all is_read new
           \<and> placed new = (case r of Ok n \<Rightarrow> nat n | Fail e \<Rightarrow> 0 | Panic p \<Rightarrow> 0))
     \<and> (case r of Ok n \<Rightarrow> nat n \<le> length buf | Fail e \<Rightarrow> True | Panic p \<Rightarrow> True)"
proof (induction i arbitrary: c buf)
  case 0
  then show ?case by auto
next
  case (Suc i)
  obtain m e k b where rd: "conn_Read (conn c) buf = ((m, e), k, b)"
    by (metis prod.exhaust)
  note lg = conn_Read_log [OF rd]
  show ?case
  proof (cases "m < 0 \<or> e \<noteq> None \<or> 0 < m")
    case True
    then show ?thesis using Suc.prems rd lg
      by (auto split: if_splits option.splits)
  next
    case False
    then have rec: "recvFill_loop i (c\<lparr>conn := k\<rparr>) b = (r, c', buf')"
      using Suc.prems rd by simp
    have len: "length b = length buf" using rd by (rule conn_Read_length)
    from Suc.IH [OF rec] obtain new where
      fr: "c' = c\<lparr>conn := conn c'\<rparr>" "outbox (conn c') = outbox k"
      and new: "log (conn c') = log k @ new" "list_all is_read new"
        "placed new = (case r of Ok n \<Rightarrow> nat n | Fail e \<Rightarrow> 0 | Panic p \<Rightarrow> 0)"
      and bd: "(case r of Ok n \<Rightarrow> nat n \<le> length b | Fail e \<Rightarrow> True | Panic p \<Rightarrow> True)"
      by (cases c, cases c') auto
    have "log (conn c') = log (conn c) @ (OpRead (length buf) m e # new)"
      using new lg by simp
    moreover have "list_all is_read (OpRead (length buf) m e # new)"
      using new by simp
    moreover have "placed (OpRead (length buf) m e # new)
        = (case r of Ok n \<Rightarrow> nat n | Fail e \<Rightarrow> 0 | Panic p \<Rightarrow> 0)"
      using new False by simp
    ultimately show ?thesis using fr lg bd len by (auto split: res.splits)
  qed
qed

lemma recvPeek_loop_frame:
  "recvPeek_loop c buf off = (r, c', buf') \<Longrightarrow> off \<le> length buf \<Longrightarrow>
     c' = c\<lparr>conn := conn c'\<rparr> \<and> outbox (conn c') = outbox (conn c) \<and> length buf' = length buf
     \<and> (\<exists>new. log (conn c') = log (conn c) @ new \<and> list_all is_read new
           \<and> off + placed new \<le> length buf
           \<and> (r = Ok () \<longleftrightarrow> off + placed new = length buf))"
proof (induction c buf off rule: recvPeek_loop.induct)
  case (1 c buf offset)
  show ?case
  proof (cases "offset < length buf")
    case False
    then show ?thesis using "1.prems" by (simp add: recvPeek_loop.simps [of c buf offset])
  next
    case True
    obtain r1 c1 sub where fill: "recvFill c (drop offset buf) = (r1, c1, sub)"
      by (metis prod.exhaust)
    have fl: "recvFill_loop messageMaxConsecutiveEmptyReads c (drop offset buf) = (r1, c1, sub)"
      using fill by (simp add: recvFill_def)
    have len: "length sub = length buf - offset"
      using recvFill_loop_length [OF fl] by simp
    from recvFill_loop_frame [OF fl] obtain new1 where
      fr1: "c1 = c\<lparr>conn := conn c1\<rparr>" "outbox (conn c1) = outbox (conn c)"
      and new1: "log (conn c1) = log (conn c) @ new1" "list_all is_read new1"
        "placed new1 = (case r1 of Ok n \<Rightarrow> nat n | Fail e \<Rightarrow> 0 | Panic p \<Rightarrow> 0)"
      and bd: "(case r1 of Ok n \<Rightarrow> nat n \<le> length (drop offset buf) | Fail e \<Rightarrow> True | Panic p \<Rightarrow> True)"
      by blast
    show ?thesis
    proof (cases r1)
      case (Ok n)
      have rec: "recvPeek_loop c1 (take offset buf @ sub) (offset + nat n) = (r, c', buf')"
        using "1.prems"(1) True fill Ok by (simp add: recvPeek_loop.simps [of c buf offset])
      have le: "offset + nat n \<le> length (take offset buf @ sub)"
        using True bd Ok len by simp
      from "1.IH" [OF True fill [symmetric] refl Ok rec le] obtain new2 where
        fr2: "c' = c1\<lparr>conn := conn c'\<rparr>" "outbox (conn c') = outbox (conn c1)"
          "length buf' = length (take offset buf @ sub)"
        and new2: "log (conn c') = log (conn c1) @ new2" "list_all is_read new2"
          "offset + nat n + placed new2 \<le> length (take offset buf @ sub)"
          "(r = Ok ()) = (offset + nat n + placed new2 = length (take offset buf @ sub))"
        by blast
      have l: "length (take offset buf @ sub) = length buf" using True len by simp
      have "log (conn c') = log (conn c) @ (new1 @ new2)" using new1 new2 by simp
      moreover have "list_all is_read (new1 @ new2)" using new1 new2 by simp
      moreover have "placed (new1 @ new2) = nat n + placed new2"
        using new1 Ok by (simp add: placed_append)
      moreover have "c' = c\<lparr>conn := conn c'\<rparr>"
        using fr1(1) fr2(1) by (cases c, cases c1, cases c') auto
      ultimately show ?thesis using fr1 fr2 new2 l
        by (metis add.assoc)
    next
      case (Fail e)
      then have res: "r = Fail e" "c' = c1" "buf' = take offset buf @ sub"
        using "1.prems"(1) True fill by (simp_all add: recvPeek_loop.simps [of c buf offset])
      have "placed new1 = 0" using new1 Fail by simp
      then show ?thesis using res fr1 new1 len True by auto
    next
      case (Panic p)
      then have res: "r = Panic p" "c' = c1" "buf' = take offset buf @ sub"
        using "1.prems"(1) True fill by (simp_all add: recvPeek_loop.simps [of c buf offset])
      have "placed new1 = 0" using new1 Panic by simp
      then show ?thesis using res fr1 new1 len True by auto
    qed
  qed
qed

subsection \<open>Filling a buffer\<close>

lemma spaced_0: "spaced 0 chunks = map (\<lambda>ch. ReadEv ch None) chunks"
  by (induction chunks) simp_all

lemma pending_replicate_empty: "pending (replicate k (ReadEv [] None) @ evs) = pending evs"
  by (induction k) simp_all

lemma pending_spaced: "pending (spaced k chunks @ rest) = concat chunks @ pending rest"
  by (induction chunks) (simp_all add: pending_replicate_empty)

lemma conn_Read_empty:
  "inbox k = ReadEv [] None # evs \<Longrightarrow>
     conn_Read k buf = ((0, None), k\<lparr>inbox := evs, log := log k @ [OpRead (length buf) 0 None]\<rparr>, buf)"
  by (simp add: conn_Read_def)

lemma conn_Read_chunk:
  "inbox k = ReadEv ch None # evs \<Longrightarrow>
     conn_Read k buf =
       ((int (min (length ch) (length buf)), None),
        k\<lparr>inbox := (if length ch \<le> length buf then evs else ReadEv (drop (length buf) ch) None # evs),
          log := log k @ [OpRead (length buf) (int (min (length ch) (length buf))) None]\<rparr>,
        take (length buf) ch @ drop (length ch) buf)"
  by (simp add: conn_Read_def min_def)

lemma recvFill_loop_zero_reads:
  "inbox (conn c) = replicate i (ReadEv [] None) @ rest \<Longrightarrow>
     recvFill_loop i c buf =
       (Fail ErrNoProgress,
        c\<lparr>conn := (conn c)\<lparr>inbox := rest,
                             log := log (conn c) @ replicate i (OpRead (length buf) 0 None)\<rparr>\<rparr>,
        buf)"
proof (induction i arbitrary: c)
  case 0
  then show ?case by simp
next
  case (Suc i)
  let ?k = "(conn c)\<lparr>inbox := replicate i (ReadEv [] None) @ rest,
                      log := log (conn c) @ [OpRead (length buf) 0 None]\<rparr>"
  have rd: "conn_Read (conn c) buf = ((0, None), ?k, buf)"
    using Suc.prems by (simp add: conn_Read_empty)
  have "recvFill_loop (Suc i) c buf = recvFill_loop i (c\<lparr>conn := ?k\<rparr>) buf"
    by (simp add: rd)
  also have "\<dots> = (Fail ErrNoProgress,
        (c\<lparr>conn := ?k\<rparr>)\<lparr>conn := (conn (c\<lparr>conn := ?k\<rparr>))\<lparr>inbox := rest,
            log := log (conn (c\<lparr>conn := ?k\<rparr>)) @ replicate i (OpRead (length buf) 0 None)\<rparr>\<rparr>,
        buf)"
    by (rule Suc.IH) simp
  finally show ?case by (simp add: replicate_app_Cons_same)
qed

lemma recvFill_loop_skip:
  "k < i \<Longrightarrow> ch \<noteq> [] \<Longrightarrow> buf \<noteq> [] \<Longrightarrow>
   inbox (conn c) = replicate k (ReadEv [] None) @ ReadEv ch None # rest \<Longrightarrow>
     recvFill_loop i c buf =
       (Ok (int (min (length ch) (length buf))),
        c\<lparr>conn := (conn c)\<lparr>inbox := (if length ch \<le> length buf then rest
                                       else ReadEv (drop (length buf) ch) None # rest),
                             log := log (conn c) @ replicate k (OpRead (length buf) 0 None)
                                    @ [OpRead (length buf) (int (min (length ch) (length buf))) None]\<rparr>\<rparr>,
        take (length buf) ch @ drop (length ch) buf)"
proof (induction k arbitrary: i c)
  case 0
  then obtain j where i: "i = Suc j" by (cases i) simp_all
  have "inbox (conn c) = ReadEv ch None # rest" using 0 by simp
  note rd = conn_Read_chunk [OF this, of buf]
  have pos: "0 < min (length ch) (length buf)" using 0 by simp
  show ?case unfolding i using pos by (simp add: rd)
next
  case (Suc k)
  then obtain j where i: "i = Suc j" and kj: "k < j" by (cases i) simp_all
  let ?k = "(conn c)\<lparr>inbox := replicate k (ReadEv [] None) @ ReadEv ch None # rest,
                      log := log (conn c) @ [OpRead (length buf) 0 None]\<rparr>"
  have rd: "conn_Read (conn c) buf = ((0, None), ?k, buf)"
    using Suc.prems by (simp add: conn_Read_empty)
  have "recvFill_loop i c buf = recvFill_loop j (c\<lparr>conn := ?k\<rparr>) buf"
    unfolding i by (simp add: rd)
  also have "\<dots> = (Ok (int (min (length ch) (length buf))),
        (c\<lparr>conn := ?k\<rparr>)\<lparr>conn := (conn (c\<lparr>conn := ?k\<rparr>))\<lparr>inbox := (if length ch \<le> length buf then rest
                                       else ReadEv (drop (length buf) ch) None # rest),
                             log := log (conn (c\<lparr>conn := ?k\<rparr>)) @ replicate k (OpRead (length buf) 0 None)
                                    @ [OpRead (length buf) (int (min (length ch) (length buf))) None]\<rparr>\<rparr>,
        take (length buf) ch @ drop (length ch) buf)"
    by (rule Suc.IH [OF kj Suc.prems(2,3)]) simp
  finally show ?case by simp
qed

lemma recvPeek_loop_spaced:
  "k < messageMaxConsecutiveEmptyReads \<Longrightarrow> [] \<notin> set chunks \<Longrightarrow> off \<le> length buf \<Longrightarrow>
   length buf - off \<le> length (concat chunks) \<Longrightarrow> inbox (conn c) = spaced k chunks @ rest \<Longrightarrow>
     fst (recvPeek_loop c buf off) = Ok ()"
proof (induction chunks arbitrary: c buf off)
  case Nil
  then have "\<not> off < length buf" by simp
  then show ?case by (simp add: recvPeek_loop.simps [of c buf off])
next
  case (Cons ch chunks)
  show ?case
  proof (cases "off < length buf")
    case False
    then show ?thesis by (simp add: recvPeek_loop.simps [of c buf off])
  next
    case True
    let ?sub = "drop off buf"
    have sub: "?sub \<noteq> []" "length ?sub = length buf - off" using True by simp_all
    have ch: "ch \<noteq> []" using Cons.prems(2) by auto
    have ib: "inbox (conn c) = replicate k (ReadEv [] None) @ ReadEv ch None # (spaced k chunks @ rest)"
      using Cons.prems(5) by simp
    note fill = recvFill_loop_skip [OF Cons.prems(1) ch sub(1) ib]
    let ?n = "min (length ch) (length ?sub)"
    let ?c1 = "c\<lparr>conn := (conn c)\<lparr>inbox := (if length ch \<le> length ?sub then spaced k chunks @ rest
                                       else ReadEv (drop (length ?sub) ch) None # (spaced k chunks @ rest)),
                             log := log (conn c) @ replicate k (OpRead (length ?sub) 0 None)
                                    @ [OpRead (length ?sub) (int ?n) None]\<rparr>\<rparr>"
    let ?buf1 = "take off buf @ take (length ?sub) ch @ drop (length ch) ?sub"
    have step: "recvPeek_loop c buf off = recvPeek_loop ?c1 ?buf1 (off + ?n)"
      using True by (subst recvPeek_loop.simps) (simp add: recvFill_def fill)
    have l1: "length ?buf1 = length buf" using True by (simp add: min_def)
    show ?thesis
    proof (cases "length ch \<le> length ?sub")
      case le: True
      have "fst (recvPeek_loop ?c1 ?buf1 (off + ?n)) = Ok ()"
      proof (rule Cons.IH [OF Cons.prems(1)])
        show "[] \<notin> set chunks" using Cons.prems(2) by simp
        show "off + ?n \<le> length ?buf1" using le True l1 by simp
        show "length ?buf1 - (off + ?n) \<le> length (concat chunks)"
          using le Cons.prems(4) l1 by simp
        show "inbox (conn ?c1) = spaced k chunks @ rest" using le by simp
      qed
      then show ?thesis by (simp only: step)
    next
      case gt: False
      then have "off + ?n = length ?buf1" using True l1 by simp
      then have "\<not> off + ?n < length ?buf1" by simp
      then have "fst (recvPeek_loop ?c1 ?buf1 (off + ?n)) = Ok ()"
        by (subst recvPeek_loop.simps) (simp only: if_False fst_conv)
      then show ?thesis by (simp only: step)
    qed
  qed
qed

text \<open>
  What \<^verbatim>\<open>recvPeek\<close> does on a buffer of \<open>N\<close> bytes: it keeps the length of the
  buffer and returns success exactly when the reads that reported no error handed over
  \<open>N\<close> bytes in total; on success the buffer holds the next \<open>N\<close> bytes of the stream
  and the stream has lost exactly those; and whenever the stream delivers at least \<open>N\<close>
  bytes in non-empty chunks of any sizes with no error, one byte per read included, it
  succeeds.
\<close>

lemma recvPeek_fills:
  "case recvPeek c buf of
     (r, c', buf') \<Rightarrow>
       length buf' = length buf
       \<and> (r = Ok () \<longleftrightarrow> placed (drop (length (log (conn c))) (log (conn c'))) = length buf)
       \<and> (r = Ok () \<longrightarrow>
            buf' = take (length buf) (pending (inbox (conn c)))
            \<and> pending (inbox (conn c')) = drop (length buf) (pending (inbox (conn c))))
       \<and> (inbox (conn c) = map (\<lambda>ch. ReadEv ch None) chunks @ rest \<and> [] \<notin> set chunks
            \<and> length buf \<le> length (concat chunks) \<longrightarrow> r = Ok ())"
proof -
  obtain r c' buf' where pk: "recvPeek c buf = (r, c', buf')"
    by (metis prod.exhaust)
  then have loop: "recvPeek_loop c buf 0 = (r, c', buf')"
    by (simp add: recvPeek_def)
  from recvPeek_loop_frame [OF loop] obtain new where
    len: "length buf' = length buf" and new: "log (conn c') = log (conn c) @ new"
    and iff: "(r = Ok ()) = (placed new = length buf)"
    by auto
  have a: "(r = Ok ()) = (placed (drop (length (log (conn c))) (log (conn c'))) = length buf)"
    using iff new by simp
  have b: "buf' = take (length buf) (pending (inbox (conn c)))
      \<and> pending (inbox (conn c')) = drop (length buf) (pending (inbox (conn c)))" if "r = Ok ()"
  proof -
    from loop that have "recvPeek_loop c buf 0 = (Ok (), c', buf')" by simp
    from recvPeek_loop_ok [OF this]
    have "pending (inbox (conn c)) = buf' @ pending (inbox (conn c'))" by simp
    then show ?thesis using len by simp
  qed
  have c: "r = Ok ()"
    if "inbox (conn c) = map (\<lambda>ch. ReadEv ch None) chunks @ rest \<and> [] \<notin> set chunks
        \<and> length buf \<le> length (concat chunks)"
  proof -
    have k: "0 < messageMaxConsecutiveEmptyReads"
      by (simp add: messageMaxConsecutiveEmptyReads_def)
    have "fst (recvPeek_loop c buf 0) = Ok ()"
      using that by (intro recvPeek_loop_spaced [OF k, of chunks]) (simp_all add: spaced_0)
    then show ?thesis using loop by simp
  qed
  show ?thesis using len a b c by (simp add: pk)
qed

text \<open>
  C4. The claim is that \<^verbatim>\<open>recvPeek\<close> returns success exactly when the \<open>N\<close> bytes
  have been placed in the buffer. \<^verbatim>\<open>recvFill\<close> looks at the error of a read before
  its count, so the bytes a read hands over together with an error are stored in the
  buffer and never counted. Here the stream hands over one byte and then the last two
  bytes together with \<^verbatim>\<open>io.EOF\<close>: the 3-byte buffer ends up holding the next 3
  bytes of the stream, and \<^verbatim>\<open>recvPeek\<close> returns \<^verbatim>\<open>io.EOF\<close>.
\<close>

theorem recvPeek_full_buffer_fails:
  "take 3 (pending (inbox (conn eof_client))) = [1, 2, 3]
   \<and> recvPeek eof_client (replicate 3 0) =
       (Fail EOF,
        eof_client\<lparr>conn := \<lparr>inbox = [], outbox = [],
           log = [OpRead 3 1 None, OpRead 2 2 (Some EOF)]\<rparr>\<rparr>,
        [1, 2, 3])"
proof -
  have "take 3 (pending (inbox (conn eof_client))) = [1, 2, 3]"
    by (simp add: eof_client_def)
  moreover have "recvPeek eof_client (replicate 3 0) =
       (Fail EOF,
        eof_client\<lparr>conn := \<lparr>inbox = [], outbox = [],
           log = [OpRead 3 1 None, OpRead 2 2 (Some EOF)]\<rparr>\<rparr>,
        [1, 2, 3])"
    by code_simp
  ultimately show ?thesis by blast
qed

text \<open>
  C5. On a non-empty buffer, when the first \<^verbatim>\<open>messageMaxConsecutiveEmptyReads\<close>
  reads return no byte and no error, \<^verbatim>\<open>recvFill\<close> and \<^verbatim>\<open>recvPeek\<close> fail with
  \<^verbatim>\<open>io.ErrNoProgress\<close> after exactly that many reads: that many entries of the
  script are consumed, that many reads are logged and the buffer is unchanged. Fewer
  empty reads before each chunk do not produce the error, however many they are in
  total: the buffer is filled with the bytes of the chunks.
\<close>

theorem recvPeek_no_progress:
  "(buf \<noteq> [] \<and> inbox (conn c) = replicate messageMaxConsecutiveEmptyReads (ReadEv [] None) @ rest \<longrightarrow>
      recvFill c buf =
        (Fail ErrNoProgress,
         c\<lparr>conn := (conn c)\<lparr>inbox := rest,
              log := log (conn c) @ replicate messageMaxConsecutiveEmptyReads (OpRead (length buf) 0 None)\<rparr>\<rparr>,
         buf)
      \<and> recvPeek c buf =
        (Fail ErrNoProgress,
         c\<lparr>conn := (conn c)\<lparr>inbox := rest,
              log := log (conn c) @ replicate messageMaxConsecutiveEmptyReads (OpRead (length buf) 0 None)\<rparr>\<rparr>,
         buf))
   \<and> (k < messageMaxConsecutiveEmptyReads \<and> [] \<notin> set chunks \<and> length buf \<le> length (concat chunks)
        \<and> inbox (conn c) = spaced k chunks @ rest \<longrightarrow>
      recvPeek c buf =
        (Ok (), snd (recvPeek c buf)) \<and> snd (snd (recvPeek c buf)) = take (length buf) (concat chunks))"
proof (intro conjI impI)
  assume h: "buf \<noteq> [] \<and> inbox (conn c) = replicate messageMaxConsecutiveEmptyReads (ReadEv [] None) @ rest"
  then have ib: "inbox (conn c) = replicate messageMaxConsecutiveEmptyReads (ReadEv [] None) @ rest"
    and ne: "0 < length buf" by simp_all
  show fill: "recvFill c buf =
        (Fail ErrNoProgress,
         c\<lparr>conn := (conn c)\<lparr>inbox := rest,
              log := log (conn c) @ replicate messageMaxConsecutiveEmptyReads (OpRead (length buf) 0 None)\<rparr>\<rparr>,
         buf)"
    unfolding recvFill_def using ib by (rule recvFill_loop_zero_reads)
  show "recvPeek c buf =
        (Fail ErrNoProgress,
         c\<lparr>conn := (conn c)\<lparr>inbox := rest,
              log := log (conn c) @ replicate messageMaxConsecutiveEmptyReads (OpRead (length buf) 0 None)\<rparr>\<rparr>,
         buf)"
    unfolding recvPeek_def using ne by (subst recvPeek_loop.simps) (simp add: fill)
next
  assume h: "k < messageMaxConsecutiveEmptyReads \<and> [] \<notin> set chunks \<and> length buf \<le> length (concat chunks)
        \<and> inbox (conn c) = spaced k chunks @ rest"
  then have ok: "fst (recvPeek_loop c buf 0) = Ok ()"
    by (intro recvPeek_loop_spaced [of k chunks]) simp_all
  then show "recvPeek c buf = (Ok (), snd (recvPeek c buf))"
    by (simp add: recvPeek_def prod_eq_iff)
  obtain c' buf' where loop: "recvPeek_loop c buf 0 = (Ok (), c', buf')"
    using ok by (metis prod.collapse)
  from recvPeek_loop_ok [OF loop]
  have "length buf' = length buf" "pending (inbox (conn c)) = buf' @ pending (inbox (conn c'))"
    by simp_all
  moreover have "pending (inbox (conn c)) = concat chunks @ pending rest"
    using h by (simp add: pending_spaced)
  ultimately have "buf' = take (length buf) (concat chunks)"
    using h by (metis append_eq_append_conv_if)
  then show "snd (snd (recvPeek c buf)) = take (length buf) (concat chunks)"
    using loop by (simp add: recvPeek_def)
qed

theorem recvPeek_no_progress_witness:
  "replicate 2 (0 :: byte) \<noteq> []
   \<and> inbox (conn idle_client) = replicate messageMaxConsecutiveEmptyReads (ReadEv [] None) @ [ReadEv [1, 2, 3] None]
   \<and> recvPeek idle_client (replicate 2 0) =
        (Fail ErrNoProgress,
         idle_client\<lparr>conn := \<lparr>inbox = [ReadEv [1, 2, 3] None], outbox = [],
              log = replicate 100 (OpRead 2 0 None)\<rparr>\<rparr>,
         replicate 2 0)
   \<and> (99 :: nat) < messageMaxConsecutiveEmptyReads
   \<and> [] \<notin> set [[1], [2, 3 :: byte]]
   \<and> length (replicate 2 (0 :: byte)) \<le> length (concat [[1], [2, 3 :: byte]])
   \<and> inbox (conn slow_client) = spaced 99 [[1], [2, 3]] @ []
   \<and> fst (recvPeek slow_client (replicate 2 0)) = Ok ()
   \<and> snd (snd (recvPeek slow_client (replicate 2 0))) = [1, 2]
   \<and> length (filter (\<lambda>x. x = OpRead 2 0 None \<or> x = OpRead 1 0 None)
        (log (conn (fst (snd (recvPeek slow_client (replicate 2 0))))))) = 198"
proof -
  have a1: "replicate 2 (0 :: byte) \<noteq> []" by simp
  have a2: "inbox (conn idle_client)
      = replicate messageMaxConsecutiveEmptyReads (ReadEv [] None) @ [ReadEv [1, 2, 3] None]"
    by (simp add: idle_client_def)
  have b1: "(99 :: nat) < messageMaxConsecutiveEmptyReads"
    by (simp add: messageMaxConsecutiveEmptyReads_def)
  have b2: "[] \<notin> set [[1], [2, 3 :: byte]]" by simp
  have b3: "length (replicate 2 (0 :: byte)) \<le> length (concat [[1], [2, 3 :: byte]])" by simp
  have b4: "inbox (conn slow_client) = spaced 99 [[1], [2, 3]] @ []"
    by (simp add: slow_client_def)
  have cnt: "length (filter (\<lambda>x. x = OpRead 2 0 None \<or> x = OpRead 1 0 None)
        (log (conn (fst (snd (recvPeek slow_client (replicate 2 0))))))) = 198"
    by code_simp
  note th1 = recvPeek_no_progress [where c = idle_client and buf = "replicate 2 0"
      and rest = "[ReadEv [1, 2, 3] None]" and k = 99 and chunks = "[]"]
  note th2 = recvPeek_no_progress [where c = slow_client and buf = "replicate 2 0"
      and rest = "[]" and k = 99 and chunks = "[[1], [2, 3]]"]
  have r1: "recvPeek idle_client (replicate 2 0) =
        (Fail ErrNoProgress,
         idle_client\<lparr>conn := \<lparr>inbox = [ReadEv [1, 2, 3] None], outbox = [],
              log = replicate 100 (OpRead 2 0 None)\<rparr>\<rparr>,
         replicate 2 0)"
    using th1 a1 a2 by (simp add: idle_client_def messageMaxConsecutiveEmptyReads_def)
  have r2: "fst (recvPeek slow_client (replicate 2 0)) = Ok ()
      \<and> snd (snd (recvPeek slow_client (replicate 2 0))) = [1, 2]"
    using th2 b1 b2 b3 b4 by (metis fst_conv concat.simps(2) append_Cons append_Nil take_Suc_Cons take_0
        length_replicate numeral_2_eq_2)
  show ?thesis using a1 a2 r1 b1 b2 b3 b4 r2 cnt by blast
qed

subsection \<open>Receiving the body\<close>


lemma go_int_id: "0 \<le> x \<Longrightarrow> x < 2 ^ (int_bits sz - 1) \<Longrightarrow> go_int sz x = x"
  by (cases sz) (simp_all add: go_int_def int_bits_def Let_def)

lemma fits_Int64: "fits Int64 (unat (w :: 32 word) * 8)"
proof -
  have "uint w < 2 ^ 32" using unsigned_less [where 'a = int, of w] by simp
  then have "uint w * 8 < 2 ^ 63" by simp
  then show ?thesis by (simp add: fits_def int_bits_def)
qed

lemma body_bytes_fits:
  assumes "fits sz (unat (words res) * 8)"
  shows "go_int sz (go_int sz (int (unat (words res))) * messageWordSize) = int (unat (words res) * 8)"
    and "go_int sz (go_int sz (uint (words res)) * messageWordSize) = int (unat (words res) * 8)"
proof -
  have b: "int (unat (words res) * 8) < 2 ^ (int_bits sz - 1)"
    using assms by (simp add: fits_def)
  have "int (unat (words res)) \<le> int (unat (words res) * 8)" by simp
  then have "int (unat (words res)) < 2 ^ (int_bits sz - 1)" using b by linarith
  then have "go_int sz (int (unat (words res))) = int (unat (words res))"
    by (intro go_int_id) simp_all
  moreover have "go_int sz (int (unat (words res) * 8)) = int (unat (words res) * 8)"
    using b by (intro go_int_id) simp_all
  ultimately show "go_int sz (go_int sz (int (unat (words res))) * messageWordSize)
      = int (unat (words res) * 8)"
    by (simp add: messageWordSize_def)
  then show "go_int sz (go_int sz (uint (words res)) * messageWordSize) = int (unat (words res) * 8)"
    by simp
qed

lemma recvBody_run:
  assumes sl: "slice_to (Bytes (body1 res))
      (go_int sz (go_int sz (int (unat (words res))) * messageWordSize)) = Inr buf"
    and pk: "recvPeek c buf = (r, k, buf')"
  shows "recvBody sz c res =
      ((case r of Ok u \<Rightarrow> Ok () | Fail e \<Rightarrow> Fail (Wrap e ''failed to read body'') | Panic p \<Rightarrow> Panic p),
       k, res\<lparr>body1 := (body1 res)\<lparr>Bytes := store_to (Bytes (body1 res)) buf'\<rparr>\<rparr>)"
  using sl pk unfolding recvBody_def Let_def by (cases r) simp_all

lemma recvBody_panics:
  assumes "slice_to (Bytes (body1 res))
      (go_int sz (go_int sz (int (unat (words res))) * messageWordSize)) = Inl p"
  shows "recvBody sz c res = (Panic p, c, res)"
  using assms unfolding recvBody_def Let_def by simp



lemma slice_to_out:
  "n < 0 \<or> int (case b of None \<Rightarrow> 0 | Some old \<Rightarrow> length old) < n \<Longrightarrow> slice_to b n = Inl SliceBounds"
  by (auto simp: slice_to_def Let_def split: option.splits)




lemma wrap_slice_0:
  "slice_to (Bytes (body1 (wrap_msg 536870912)))
     (go_int Int32 (go_int Int32 (int (unat (words (wrap_msg 536870912)))) * messageWordSize))
   = Inr []"
  by (simp add: wrap_msg_def go_int_def int_bits_def messageWordSize_def slice_to_def)


lemma wrap_peek_0: "recvPeek wrap_client [] = (Ok (), wrap_client, [])"
  by code_simp





text \<open>
  C10, as stated, fails on a platform whose \<^verbatim>\<open>int\<close> has 32 bits: for the word
  count \<open>2^29\<close> and a 16-byte primary buffer the product \<open>w * 8\<close> wraps around to 0,
  and \<^verbatim>\<open>recvBody\<close> returns success with no read and no panic.
\<close>

theorem recvBody_oversized_counterexample:
  "buffer_len (body1 (wrap_msg 536870912)) < unat (words (wrap_msg 536870912)) * 8
   \<and> recvBody Int32 wrap_client (wrap_msg 536870912) = (Ok (), wrap_client, wrap_msg 536870912)"
proof -
  have "buffer_len (body1 (wrap_msg 536870912)) < unat (words (wrap_msg 536870912)) * 8"
    by (simp add: wrap_msg_def buffer_len_def)
  moreover have "recvBody Int32 wrap_client (wrap_msg 536870912) = (Ok (), wrap_client, wrap_msg 536870912)"
    unfolding recvBody_run [OF wrap_slice_0 wrap_peek_0]
    by (simp add: wrap_msg_def store_to_def)
  ultimately show ?thesis by blast
qed

text \<open>
  C10, amended. \<^verbatim>\<open>recvBody\<close> panics at the slice expression, before any read,
  leaving the client and the message as they are, whenever the byte count it computes in
  the \<^verbatim>\<open>int\<close> of the platform is negative or above the size of the primary buffer.
  That is so for every word count \<open>w\<close> with \<open>w * 8\<close> above the size of the buffer whose
  product \<open>w * 8\<close> fits the \<^verbatim>\<open>int\<close> of the platform, which is every such \<open>w\<close> on
  a 64-bit platform. Nothing between the decoding of the header and that slice expression
  checks the size: when \<^verbatim>\<open>recvHeader\<close> succeeds with such a word count,
  \<^verbatim>\<open>recv\<close> panics.
\<close>

theorem recvBody_oversized:
  "fits Int64 (unat (words res) * 8)
   \<and> (body_bytes sz res < 0 \<or> int (buffer_len (body1 res)) < body_bytes sz res \<longrightarrow>
        recvBody sz c res = (Panic SliceBounds, c, res))
   \<and> (fits sz (unat (words res) * 8) \<and> buffer_len (body1 res) < unat (words res) * 8 \<longrightarrow>
        recvBody sz c res = (Panic SliceBounds, c, res))
   \<and> (recvHeader c res = (Ok (), c1, res1) \<and> fits sz (unat (words res1) * 8)
        \<and> buffer_len (body1 res1) < unat (words res1) * 8 \<longrightarrow>
        recv sz c res = (Panic SliceBounds, c1, res1))"
proof -
  have gen: "recvBody sz k m = (Panic SliceBounds, k, m)"
    if "body_bytes sz m < 0 \<or> int (buffer_len (body1 m)) < body_bytes sz m" for k m
  proof -
    have "slice_to (Bytes (body1 m)) (body_bytes sz m) = Inl SliceBounds"
      using that by (intro slice_to_out) (simp add: buffer_len_def)
    then show ?thesis
      unfolding body_bytes_def by (rule recvBody_panics)
  qed
  have fit: "recvBody sz k m = (Panic SliceBounds, k, m)"
    if "fits sz (unat (words m) * 8)" "buffer_len (body1 m) < unat (words m) * 8" for k m
  proof -
    have "body_bytes sz m = int (unat (words m) * 8)"
      unfolding body_bytes_def using that(1) by (rule body_bytes_fits)
    moreover have "int (buffer_len (body1 m)) < int (unat (words m) * 8)"
      using that(2) by (simp only: of_nat_less_iff)
    ultimately have "int (buffer_len (body1 m)) < body_bytes sz m" by (simp only:)
    then show ?thesis by (intro gen) (rule disjI2)
  qed
  have rv: "recv sz c res = (Panic SliceBounds, c1, res1)"
    if "recvHeader c res = (Ok (), c1, res1)" "fits sz (unat (words res1) * 8)"
      "buffer_len (body1 res1) < unat (words res1) * 8"
    using that(1) fit [OF that(2,3), of c1] by (simp add: recv_def)
  show ?thesis
  proof (intro conjI impI)
    show "fits Int64 (unat (words res) * 8)" by (rule fits_Int64)
  next
    assume "body_bytes sz res < 0 \<or> int (buffer_len (body1 res)) < body_bytes sz res"
    then show "recvBody sz c res = (Panic SliceBounds, c, res)" by (rule gen)
  next
    assume "fits sz (unat (words res) * 8) \<and> buffer_len (body1 res) < unat (words res) * 8"
    then show "recvBody sz c res = (Panic SliceBounds, c, res)" using fit by blast
  next
    assume "recvHeader c res = (Ok (), c1, res1) \<and> fits sz (unat (words res1) * 8)
        \<and> buffer_len (body1 res1) < unat (words res1) * 8"
    then show "recv sz c res = (Panic SliceBounds, c1, res1)" using rv by blast
  qed
qed

theorem recvBody_oversized_witness:
  "fits Int64 (unat (words (hdr_msg\<lparr>words := 3\<rparr>)) * 8)
   \<and> buffer_len (body1 (hdr_msg\<lparr>words := 3\<rparr>)) < unat (words (hdr_msg\<lparr>words := 3\<rparr>)) * 8
   \<and> recvBody Int64 hdr_client (hdr_msg\<lparr>words := 3\<rparr>) = (Panic SliceBounds, hdr_client, hdr_msg\<lparr>words := 3\<rparr>)
   \<and> recvHeader hdr_client (hdr_msg\<lparr>words := 3\<rparr>) =
       (Ok (),
        hdr_client\<lparr>conn := \<lparr>inbox = [ReadEv [9, 9] None], outbox = [],
           log = [OpRead 8 3 None, OpRead 5 0 None, OpRead 5 5 None]\<rparr>\<rparr>,
        hdr_msg\<lparr>header := [2, 1, 0, 0, 5, 1, 7, 3], words := 258, mtype := 5, flags := 1, extra := 775\<rparr>)
   \<and> recv Int64 hdr_client (hdr_msg\<lparr>words := 3\<rparr>) =
       (Panic SliceBounds,
        hdr_client\<lparr>conn := \<lparr>inbox = [ReadEv [9, 9] None], outbox = [],
           log = [OpRead 8 3 None, OpRead 5 0 None, OpRead 5 5 None]\<rparr>\<rparr>,
        hdr_msg\<lparr>header := [2, 1, 0, 0, 5, 1, 7, 3], words := 258, mtype := 5, flags := 1, extra := 775\<rparr>)
   \<and> body_bytes Int32 (wrap_msg 268435456) < 0
   \<and> recvBody Int32 wrap_client (wrap_msg 268435456)
       = (Panic SliceBounds, wrap_client, wrap_msg 268435456)"
proof -
  have f1: "fits Int64 (unat (words (hdr_msg\<lparr>words := 3\<rparr>)) * 8)"
    by (simp add: fits_def int_bits_def)
  have h1: "buffer_len (body1 (hdr_msg\<lparr>words := 3\<rparr>)) < unat (words (hdr_msg\<lparr>words := 3\<rparr>)) * 8"
    by (simp add: hdr_msg_def buffer_len_def)
  have hd: "recvHeader hdr_client (hdr_msg\<lparr>words := 3\<rparr>) =
       (Ok (),
        hdr_client\<lparr>conn := \<lparr>inbox = [ReadEv [9, 9] None], outbox = [],
           log = [OpRead 8 3 None, OpRead 5 0 None, OpRead 5 5 None]\<rparr>\<rparr>,
        hdr_msg\<lparr>header := [2, 1, 0, 0, 5, 1, 7, 3], words := 258, mtype := 5, flags := 1, extra := 775\<rparr>)"
    by code_simp
  have f2: "fits Int64 (unat (words (hdr_msg\<lparr>header := [2, 1, 0, 0, 5, 1, 7, 3], words := 258, mtype := 5,
        flags := 1, extra := 775\<rparr>)) * 8)"
    by (simp add: fits_def int_bits_def)
  have h2: "buffer_len (body1 (hdr_msg\<lparr>header := [2, 1, 0, 0, 5, 1, 7, 3], words := 258, mtype := 5,
        flags := 1, extra := 775\<rparr>))
      < unat (words (hdr_msg\<lparr>header := [2, 1, 0, 0, 5, 1, 7, 3], words := 258, mtype := 5,
        flags := 1, extra := 775\<rparr>)) * 8"
    by (simp add: hdr_msg_def buffer_len_def)
  have neg: "body_bytes Int32 (wrap_msg 268435456) < 0"
    by (simp add: body_bytes_def wrap_msg_def go_int_def int_bits_def messageWordSize_def)
  note th = recvBody_oversized [where sz = Int64 and res = "hdr_msg\<lparr>words := 3\<rparr>" and c = hdr_client]
  note th32 = recvBody_oversized [where sz = Int32 and res = "wrap_msg 268435456" and c = wrap_client]
  have p32: "recvBody Int32 wrap_client (wrap_msg 268435456)
       = (Panic SliceBounds, wrap_client, wrap_msg 268435456)"
    using th32 neg by blast
  show ?thesis using th f1 h1 hd f2 h2 neg p32 by blast
qed

subsection \<open>Sending\<close>

lemma conn_Write_script:
  "outbox k = WriteEv n e # evs \<Longrightarrow>
     conn_Write k b = ((n, e), k\<lparr>outbox := evs, log := log k @ [OpWrite b n e]\<rparr>)"
  by (simp add: conn_Write_def)

lemma conn_Write_log:
  "conn_Write k b = ((n, e), k') \<Longrightarrow> log k' = log k @ [OpWrite b n e] \<and> inbox k' = inbox k"
  by (auto simp: conn_Write_def split: list.splits write_ev.splits)

lemma sendHeader_frame:
  assumes "sendHeader c req = (r, c')"
  shows "c' = c\<lparr>conn := conn c'\<rparr> \<and> inbox (conn c') = inbox (conn c)
     \<and> (\<exists>n e. log (conn c') = log (conn c) @ [OpWrite (header req) n e])"
proof -
  obtain n e k where w: "conn_Write (conn c) (header req) = ((n, e), k)"
    by (metis prod.exhaust)
  from assms w have "c' = c\<lparr>conn := k\<rparr>"
    by (auto simp: sendHeader_def split: option.splits if_splits)
  then show ?thesis using conn_Write_log [OF w] by auto
qed

lemma sendBody_frame:
  assumes "sendBody c req = (r, c')"
  shows "c' = c\<lparr>conn := conn c'\<rparr> \<and> inbox (conn c') = inbox (conn c)
     \<and> (case slice_to (Bytes (body1 req)) (Offset (body1 req)) of
           Inl p \<Rightarrow> r = Panic p \<and> log (conn c') = log (conn c)
         | Inr b1 \<Rightarrow>
             (\<exists>n e. log (conn c') = log (conn c) @ [OpWrite b1 n e])
             \<or> (\<exists>b2 n e. Bytes (body2 req) \<noteq> None
                   \<and> slice_to (Bytes (body2 req)) (Offset (body2 req)) = Inr b2
                   \<and> log (conn c') = log (conn c) @ [OpWrite b1 (int (length b1)) None, OpWrite b2 n e]))"
proof (cases "slice_to (Bytes (body1 req)) (Offset (body1 req))")
  case (Inl p)
  then show ?thesis using assms by (cases c) (auto simp: sendBody_def)
next
  case (Inr b1)
  obtain n e k where w: "conn_Write (conn c) b1 = ((n, e), k)"
    by (metis prod.exhaust)
  note l1 = conn_Write_log [OF w]
  show ?thesis
  proof (cases "e = None \<and> n = int (length b1) \<and> Bytes (body2 req) \<noteq> None")
    case False
    then have "c' = c\<lparr>conn := k\<rparr>"
      using assms Inr w by (auto simp: sendBody_def split: option.splits if_splits)
    then show ?thesis using l1 Inr by auto
  next
    case True
    show ?thesis
    proof (cases "slice_to (Bytes (body2 req)) (Offset (body2 req))")
      case (Inl p)
      then have "c' = c\<lparr>conn := k\<rparr>"
        using assms Inr w True by (auto simp: sendBody_def)
      then show ?thesis using l1 Inr by auto
    next
      case b2: (Inr b2)
      obtain n2 e2 k2 where w2: "conn_Write k b2 = ((n2, e2), k2)"
        by (metis prod.exhaust)
      note l2 = conn_Write_log [OF w2]
      have "c' = c\<lparr>conn := k2\<rparr>"
        using assms Inr w True b2 w2 by (auto simp: sendBody_def split: option.splits if_splits)
      then show ?thesis using l1 l2 Inr b2 True by auto
    qed
  qed
qed

text \<open>
  C6. \<^verbatim>\<open>sendHeader\<close> makes exactly one write, of the header block.
  \<^verbatim>\<open>sendBody\<close> makes one write of the valid part of the primary buffer and, only
  after that write took all of it and when the overflow buffer is present, one write of
  the valid part of the overflow buffer; it makes no write when the first slice
  expression panics. In each of the three steps, a write that reports no error and a
  count other than the number of bytes handed to it makes the step fail with
  \<^verbatim>\<open>io.ErrShortWrite\<close>, with that one write logged and nothing written after it.
\<close>

theorem send_single_writes:
  "(\<exists>n e. log (conn (snd (sendHeader c req))) = log (conn c) @ [OpWrite (header req) n e])
   \<and> (case slice_to (Bytes (body1 req)) (Offset (body1 req)) of
         Inl p \<Rightarrow> log (conn (snd (sendBody c req))) = log (conn c)
       | Inr b1 \<Rightarrow>
           (\<exists>n e. log (conn (snd (sendBody c req))) = log (conn c) @ [OpWrite b1 n e])
           \<or> (\<exists>b2 n e. Bytes (body2 req) \<noteq> None
                 \<and> slice_to (Bytes (body2 req)) (Offset (body2 req)) = Inr b2
                 \<and> log (conn (snd (sendBody c req)))
                     = log (conn c) @ [OpWrite b1 (int (length b1)) None, OpWrite b2 n e]))
   \<and> (length (header req) = 8 \<and> outbox (conn c) = WriteEv n None # evs \<and> n \<noteq> 8 \<longrightarrow>
        sendHeader c req =
          (Fail (Wrap ErrShortWrite ''failed to send header''),
           c\<lparr>conn := (conn c)\<lparr>outbox := evs, log := log (conn c) @ [OpWrite (header req) n None]\<rparr>\<rparr>))
   \<and> (slice_to (Bytes (body1 req)) (Offset (body1 req)) = Inr b1
        \<and> outbox (conn c) = WriteEv n None # evs \<and> n \<noteq> int (length b1) \<longrightarrow>
        sendBody c req =
          (Fail (Wrap ErrShortWrite ''failed to write body''),
           c\<lparr>conn := (conn c)\<lparr>outbox := evs, log := log (conn c) @ [OpWrite b1 n None]\<rparr>\<rparr>))
   \<and> (slice_to (Bytes (body1 req)) (Offset (body1 req)) = Inr b1
        \<and> Bytes (body2 req) \<noteq> None
        \<and> slice_to (Bytes (body2 req)) (Offset (body2 req)) = Inr b2
        \<and> outbox (conn c) = WriteEv (int (length b1)) None # WriteEv n None # evs
        \<and> n \<noteq> int (length b2) \<longrightarrow>
        sendBody c req =
          (Fail (Wrap ErrShortWrite ''failed to write body''),
           c\<lparr>conn := (conn c)\<lparr>outbox := evs,
                log := log (conn c) @ [OpWrite b1 (int (length b1)) None, OpWrite b2 n None]\<rparr>\<rparr>))"
proof (intro conjI impI)
  show "\<exists>n e. log (conn (snd (sendHeader c req))) = log (conn c) @ [OpWrite (header req) n e]"
    using sendHeader_frame [of c req "fst (sendHeader c req)" "snd (sendHeader c req)"] by simp
next
  show "case slice_to (Bytes (body1 req)) (Offset (body1 req)) of
         Inl p \<Rightarrow> log (conn (snd (sendBody c req))) = log (conn c)
       | Inr b1 \<Rightarrow>
           (\<exists>n e. log (conn (snd (sendBody c req))) = log (conn c) @ [OpWrite b1 n e])
           \<or> (\<exists>b2 n e. Bytes (body2 req) \<noteq> None
                 \<and> slice_to (Bytes (body2 req)) (Offset (body2 req)) = Inr b2
                 \<and> log (conn (snd (sendBody c req)))
                     = log (conn c) @ [OpWrite b1 (int (length b1)) None, OpWrite b2 n e])"
    using sendBody_frame [of c req "fst (sendBody c req)" "snd (sendBody c req)"]
    by (simp split: sum.splits)
next
  assume "length (header req) = 8 \<and> outbox (conn c) = WriteEv n None # evs \<and> n \<noteq> 8"
  then show "sendHeader c req =
          (Fail (Wrap ErrShortWrite ''failed to send header''),
           c\<lparr>conn := (conn c)\<lparr>outbox := evs, log := log (conn c) @ [OpWrite (header req) n None]\<rparr>\<rparr>)"
    by (simp add: sendHeader_def conn_Write_script messageHeaderSize_def)
next
  assume "slice_to (Bytes (body1 req)) (Offset (body1 req)) = Inr b1
        \<and> outbox (conn c) = WriteEv n None # evs \<and> n \<noteq> int (length b1)"
  then show "sendBody c req =
          (Fail (Wrap ErrShortWrite ''failed to write body''),
           c\<lparr>conn := (conn c)\<lparr>outbox := evs, log := log (conn c) @ [OpWrite b1 n None]\<rparr>\<rparr>)"
    by (simp add: sendBody_def conn_Write_script)
next
  assume h: "slice_to (Bytes (body1 req)) (Offset (body1 req)) = Inr b1
        \<and> Bytes (body2 req) \<noteq> None
        \<and> slice_to (Bytes (body2 req)) (Offset (body2 req)) = Inr b2
        \<and> outbox (conn c) = WriteEv (int (length b1)) None # WriteEv n None # evs
        \<and> n \<noteq> int (length b2)"
  let ?k = "(conn c)\<lparr>outbox := WriteEv n None # evs,
      log := log (conn c) @ [OpWrite b1 (int (length b1)) None]\<rparr>"
  have w1: "conn_Write (conn c) b1 = ((int (length b1), None), ?k)"
    using h by (simp add: conn_Write_script)
  have w2: "conn_Write ?k b2 = ((n, None), ?k\<lparr>outbox := evs, log := log ?k @ [OpWrite b2 n None]\<rparr>)"
    by (rule conn_Write_script) simp
  show "sendBody c req =
          (Fail (Wrap ErrShortWrite ''failed to write body''),
           c\<lparr>conn := (conn c)\<lparr>outbox := evs,
                log := log (conn c) @ [OpWrite b1 (int (length b1)) None, OpWrite b2 n None]\<rparr>\<rparr>)"
    using h by (auto simp: sendBody_def w1 w2)
qed

theorem send_single_writes_witness:
  "length (header send_msg) = 8
   \<and> outbox (conn (send_client [WriteEv 3 None])) = WriteEv 3 None # []
   \<and> (3 :: int) \<noteq> 8
   \<and> sendHeader (send_client [WriteEv 3 None]) send_msg =
        (Fail (Wrap ErrShortWrite ''failed to send header''),
         send_client [WriteEv 3 None]\<lparr>conn := \<lparr>inbox = [], outbox = [],
            log = [OpWrite [2, 0, 0, 0, 5, 0, 0, 0] 3 None]\<rparr>\<rparr>)
   \<and> slice_to (Bytes (body1 send_msg)) (Offset (body1 send_msg)) = Inr [1, 2, 3, 4, 5, 6, 7, 8]
   \<and> (7 :: int) \<noteq> int (length [1, 2, 3, 4, 5, 6, 7, 8 :: byte])
   \<and> sendBody (send_client [WriteEv 7 None, WriteEv 8 None]) send_msg =
        (Fail (Wrap ErrShortWrite ''failed to write body''),
         send_client [WriteEv 7 None, WriteEv 8 None]\<lparr>conn := \<lparr>inbox = [], outbox = [WriteEv 8 None],
            log = [OpWrite [1, 2, 3, 4, 5, 6, 7, 8] 7 None]\<rparr>\<rparr>)
   \<and> Bytes (body2 send_msg) \<noteq> None
   \<and> slice_to (Bytes (body2 send_msg)) (Offset (body2 send_msg)) = Inr [9, 10, 11, 12, 13, 14, 15, 16]
   \<and> sendBody (send_client [WriteEv 8 None, WriteEv 0 None]) send_msg =
        (Fail (Wrap ErrShortWrite ''failed to write body''),
         send_client [WriteEv 8 None, WriteEv 0 None]\<lparr>conn := \<lparr>inbox = [], outbox = [],
            log = [OpWrite [1, 2, 3, 4, 5, 6, 7, 8] 8 None, OpWrite [9, 10, 11, 12, 13, 14, 15, 16] 0 None]\<rparr>\<rparr>)
   \<and> log (conn (snd (sendBody (send_client []) send_msg))) =
        [OpWrite [1, 2, 3, 4, 5, 6, 7, 8] 8 None, OpWrite [9, 10, 11, 12, 13, 14, 15, 16] 8 None]"
proof -
  have h: "length (header send_msg) = 8" by (simp add: send_msg_def)
  have s1: "slice_to (Bytes (body1 send_msg)) (Offset (body1 send_msg)) = Inr [1, 2, 3, 4, 5, 6, 7, 8]"
    by (simp add: send_msg_def slice_to_def)
  have s2: "slice_to (Bytes (body2 send_msg)) (Offset (body2 send_msg)) = Inr [9, 10, 11, 12, 13, 14, 15, 16]"
    by (simp add: send_msg_def slice_to_def)
  have p: "Bytes (body2 send_msg) \<noteq> None" by (simp add: send_msg_def)
  have full: "log (conn (snd (sendBody (send_client []) send_msg))) =
        [OpWrite [1, 2, 3, 4, 5, 6, 7, 8] 8 None, OpWrite [9, 10, 11, 12, 13, 14, 15, 16] 8 None]"
    by code_simp
  note t1 = send_single_writes [where c = "send_client [WriteEv 3 None]" and req = send_msg
      and n = 3 and evs = "[]"]
  note t2 = send_single_writes [where c = "send_client [WriteEv 7 None, WriteEv 8 None]" and req = send_msg
      and n = 7 and evs = "[WriteEv 8 None]" and ?b1.0 = "[1, 2, 3, 4, 5, 6, 7, 8]"]
  note t3 = send_single_writes [where c = "send_client [WriteEv 8 None, WriteEv 0 None]" and req = send_msg
      and n = 0 and evs = "[]" and ?b1.0 = "[1, 2, 3, 4, 5, 6, 7, 8]"
      and ?b2.0 = "[9, 10, 11, 12, 13, 14, 15, 16]"]
  have r1: "sendHeader (send_client [WriteEv 3 None]) send_msg =
        (Fail (Wrap ErrShortWrite ''failed to send header''),
         send_client [WriteEv 3 None]\<lparr>conn := \<lparr>inbox = [], outbox = [],
            log = [OpWrite [2, 0, 0, 0, 5, 0, 0, 0] 3 None]\<rparr>\<rparr>)"
    using t1 h by (simp add: send_client_def send_msg_def)
  have r2: "sendBody (send_client [WriteEv 7 None, WriteEv 8 None]) send_msg =
        (Fail (Wrap ErrShortWrite ''failed to write body''),
         send_client [WriteEv 7 None, WriteEv 8 None]\<lparr>conn := \<lparr>inbox = [], outbox = [WriteEv 8 None],
            log = [OpWrite [1, 2, 3, 4, 5, 6, 7, 8] 7 None]\<rparr>\<rparr>)"
    using t2 s1 by (simp add: send_client_def)
  have r3: "sendBody (send_client [WriteEv 8 None, WriteEv 0 None]) send_msg =
        (Fail (Wrap ErrShortWrite ''failed to write body''),
         send_client [WriteEv 8 None, WriteEv 0 None]\<lparr>conn := \<lparr>inbox = [], outbox = [],
            log = [OpWrite [1, 2, 3, 4, 5, 6, 7, 8] 8 None, OpWrite [9, 10, 11, 12, 13, 14, 15, 16] 0 None]\<rparr>\<rparr>)"
    using t3 s1 s2 p by (simp add: send_client_def)
  show ?thesis using h s1 s2 p full r1 r2 r3 by (simp add: send_client_def)
qed

subsection \<open>Call\<close>

lemma send_frame:
  assumes "send c req = (r, c')"
  shows "c' = c\<lparr>conn := conn c'\<rparr> \<and> inbox (conn c') = inbox (conn c)
     \<and> (\<exists>ws. log (conn c') = log (conn c) @ ws \<and> list_all is_write ws)"
proof -
  obtain r1 c1 where h: "sendHeader c req = (r1, c1)" by (metis prod.exhaust)
  from sendHeader_frame [OF h] obtain n e where
    f1: "c1 = c\<lparr>conn := conn c1\<rparr>" "inbox (conn c1) = inbox (conn c)"
    and l1: "log (conn c1) = log (conn c) @ [OpWrite (header req) n e]"
    by blast
  show ?thesis
  proof (cases "r1 = Ok ()")
    case False
    then have "c' = c1" using assms h by (auto simp: send_def split: res.splits)
    then show ?thesis using f1 l1 by auto
  next
    case True
    obtain r2 c2 where b: "sendBody c1 req = (r2, c2)" by (metis prod.exhaust)
    have c2: "c' = c2" using assms h b True by (auto simp: send_def split: res.splits)
    from sendBody_frame [OF b]
    have f2: "c2 = c1\<lparr>conn := conn c2\<rparr>" "inbox (conn c2) = inbox (conn c1)"
      and "\<exists>ws. log (conn c2) = log (conn c1) @ ws \<and> list_all is_write ws"
      by (auto split: sum.splits)
    then obtain ws where l2: "log (conn c2) = log (conn c1) @ ws" "list_all is_write ws"
      by blast
    have "log (conn c') = log (conn c) @ (OpWrite (header req) n e # ws)"
      using c2 l1 l2 by simp
    moreover have "list_all is_write (OpWrite (header req) n e # ws)" using l2 by simp
    moreover have "c' = c\<lparr>conn := conn c'\<rparr>"
      using c2 f1(1) f2(1) by (cases c, cases c1, cases c2) auto
    ultimately show ?thesis using c2 f1 f2 by metis
  qed
qed

lemma recvPeek_frame:
  assumes "recvPeek c buf = (r, c', buf')"
  shows "c' = c\<lparr>conn := conn c'\<rparr> \<and> (\<exists>rs. log (conn c') = log (conn c) @ rs \<and> list_all is_read rs)"
  using recvPeek_loop_frame [of c buf 0 r c' buf'] assms by (auto simp: recvPeek_def)

lemma recvHeader_frame:
  assumes "recvHeader c res = (r, c', res')"
  shows "c' = c\<lparr>conn := conn c'\<rparr> \<and> (\<exists>rs. log (conn c') = log (conn c) @ rs \<and> list_all is_read rs)"
proof -
  obtain r1 c1 h where p: "recvPeek c (header res) = (r1, c1, h)" by (metis prod.exhaust)
  have "c' = c1"
    using assms p by (auto simp: recvHeader_def Let_def split: res.splits sum.splits)
  then show ?thesis using recvPeek_frame [OF p] by simp
qed

lemma recvBody_frame:
  assumes "recvBody sz c res = (r, c', res')"
  shows "c' = c\<lparr>conn := conn c'\<rparr> \<and> (\<exists>rs. log (conn c') = log (conn c) @ rs \<and> list_all is_read rs)"
proof (cases "slice_to (Bytes (body1 res))
    (go_int sz (go_int sz (int (unat (words res))) * messageWordSize))")
  case (Inl p)
  then have "c' = c" using assms by (simp add: recvBody_def Let_def)
  then show ?thesis by (cases c) auto
next
  case (Inr buf)
  obtain r1 c1 b where p: "recvPeek c buf = (r1, c1, b)" by (metis prod.exhaust)
  have "c' = c1"
    using assms p Inr by (auto simp: recvBody_def Let_def split: res.splits)
  then show ?thesis using recvPeek_frame [OF p] by simp
qed

lemma recv_frame:
  assumes "recv sz c res = (r, c', res')"
  shows "c' = c\<lparr>conn := conn c'\<rparr> \<and> (\<exists>rs. log (conn c') = log (conn c) @ rs \<and> list_all is_read rs)"
proof -
  obtain r1 c1 res1 where h: "recvHeader c res = (r1, c1, res1)" by (metis prod.exhaust)
  from recvHeader_frame [OF h] obtain rs1 where
    f1: "c1 = c\<lparr>conn := conn c1\<rparr>" and l1: "log (conn c1) = log (conn c) @ rs1" "list_all is_read rs1"
    by blast
  show ?thesis
  proof (cases "r1 = Ok ()")
    case False
    then have "c' = c1" using assms h by (auto simp: recv_def split: res.splits)
    then show ?thesis using f1 l1 by auto
  next
    case True
    obtain r2 c2 res2 where b: "recvBody sz c1 res1 = (r2, c2, res2)" by (metis prod.exhaust)
    have c2: "c' = c2" using assms h b True by (auto simp: recv_def split: res.splits)
    from recvBody_frame [OF b] obtain rs2 where
      f2: "c2 = c1\<lparr>conn := conn c2\<rparr>" and l2: "log (conn c2) = log (conn c1) @ rs2" "list_all is_read rs2"
      by blast
    have "log (conn c') = log (conn c) @ (rs1 @ rs2)" using c2 l1 l2 by simp
    moreover have "list_all is_read (rs1 @ rs2)" using l1 l2 by simp
    moreover have "c' = c\<lparr>conn := conn c'\<rparr>"
      using c2 f1 f2 by (cases c, cases c1, cases c2) auto
    ultimately show ?thesis by blast
  qed
qed

lemma Call_returns:
  assumes "\<not> mu c"
  shows "\<exists>r c' res'. Call sz cx c request response = Some (r, c', res')
     \<and> \<not> mu c' \<and> c' = c\<lparr>conn := conn c'\<rparr>
     \<and> (\<exists>ws rs. log (conn c') = log (conn c) @ ws @ rs \<and> list_all is_write ws \<and> list_all is_read rs)"
proof -
  obtain r1 c1 where s: "send (c\<lparr>mu := True\<rparr>) request = (r1, c1)" by (metis prod.exhaust)
  from send_frame [OF s] obtain ws where
    f1: "c1 = c\<lparr>mu := True, conn := conn c1\<rparr>"
    and l1: "log (conn c1) = log (conn c) @ ws" "list_all is_write ws"
    by auto
  have u1: "c1\<lparr>mu := False\<rparr> = c\<lparr>conn := conn c1\<rparr>"
    using f1 assms by (cases c, cases c1) auto
  show ?thesis
  proof (cases "r1 = Ok ()")
    case False
    then have "\<exists>r. Call sz cx c request response = Some (r, c1\<lparr>mu := False\<rparr>, response)"
      using assms s by (cases r1) (auto simp: Call_def)
    moreover have "log (conn (c1\<lparr>mu := False\<rparr>)) = log (conn c) @ ws @ []" using l1 by simp
    moreover have "\<not> mu (c1\<lparr>mu := False\<rparr>)" by simp
    moreover have "c1\<lparr>mu := False\<rparr> = c\<lparr>conn := conn (c1\<lparr>mu := False\<rparr>)\<rparr>" using u1 by simp
    moreover have "list_all is_read []" by simp
    ultimately show ?thesis using l1 by blast
  next
    case True
    obtain r2 c2 res2 where v: "recv sz c1 response = (r2, c2, res2)" by (metis prod.exhaust)
    from recv_frame [OF v] obtain rs where
      f2: "c2 = c1\<lparr>conn := conn c2\<rparr>" and l2: "log (conn c2) = log (conn c1) @ rs" "list_all is_read rs"
      by blast
    have u2: "c2\<lparr>mu := False\<rparr> = c\<lparr>conn := conn c2\<rparr>"
      using f1 f2 assms by (cases c, cases c1, cases c2) auto
    have "\<exists>r. Call sz cx c request response = Some (r, c2\<lparr>mu := False\<rparr>, res2)"
      using assms s v True by (cases r2) (auto simp: Call_def)
    moreover have "log (conn (c2\<lparr>mu := False\<rparr>)) = log (conn c) @ ws @ rs" using l1 l2 by simp
    moreover have "\<not> mu (c2\<lparr>mu := False\<rparr>)" by simp
    moreover have "c2\<lparr>mu := False\<rparr> = c\<lparr>conn := conn (c2\<lparr>mu := False\<rparr>)\<rparr>" using u2 by simp
    ultimately show ?thesis using l1 l2 by blast
  qed
qed

lemma send_fail_shape:
  "send c req = (Fail e, c') \<Longrightarrow>
     \<exists>e0. e = Wrap e0 ''failed to send header'' \<or> e = Wrap e0 ''failed to send body''"
  by (auto simp: send_def split: prod.splits res.splits)

lemma recv_fail_shape:
  "recv sz c res = (Fail e, c', res') \<Longrightarrow>
     \<exists>e0. e = Wrap e0 ''failed to receive header'' \<or> e = Wrap e0 ''failed to receive body''"
  by (auto simp: recv_def split: prod.splits res.splits)

text \<open>
  C7. A \<^verbatim>\<open>Call\<close> on a client whose mutex is free returns. It leaves the mutex free
  on every way out, so a further call returns too, and it changes nothing of the client
  but the connection. All the writes it makes come before all the reads. It runs the
  four phases in order and stops at the first that fails: the result is then the error
  of that phase wrapped in the message of the phase and of the direction, and the client
  is as that phase left it, with the mutex released. Every error it returns has one of
  these four forms.
\<close>

theorem Call_phases:
  assumes "\<not> mu c"
  shows "(\<exists>r c' res'. Call sz cx c request response = Some (r, c', res')
            \<and> \<not> mu c' \<and> c' = c\<lparr>conn := conn c'\<rparr>
            \<and> Call sz cx' c' request' response' \<noteq> None
            \<and> (\<exists>ws rs. log (conn c') = log (conn c) @ ws @ rs
                  \<and> list_all is_write ws \<and> list_all is_read rs)
            \<and> (\<forall>e. r = Fail e \<longrightarrow>
                 (\<exists>e0. e = Wrap (Wrap e0 ''failed to send header'') ''failed to send request''
                     \<or> e = Wrap (Wrap e0 ''failed to send body'') ''failed to send request''
                     \<or> e = Wrap (Wrap e0 ''failed to receive header'') ''failed to receive response''
                     \<or> e = Wrap (Wrap e0 ''failed to receive body'') ''failed to receive response'')))
     \<and> (case sendHeader (c\<lparr>mu := True\<rparr>) request of
          (r1, c1) \<Rightarrow>
            (\<forall>e. r1 = Fail e \<longrightarrow>
               Call sz cx c request response =
                 Some (Fail (Wrap (Wrap e ''failed to send header'') ''failed to send request''),
                       c1\<lparr>mu := False\<rparr>, response))
            \<and> (r1 = Ok () \<longrightarrow>
                 (case sendBody c1 request of
                    (r2, c2) \<Rightarrow>
                      (\<forall>e. r2 = Fail e \<longrightarrow>
                         Call sz cx c request response =
                           Some (Fail (Wrap (Wrap e ''failed to send body'') ''failed to send request''),
                                 c2\<lparr>mu := False\<rparr>, response))
                      \<and> (r2 = Ok () \<longrightarrow>
                           (case recvHeader c2 response of
                              (r3, c3, res3) \<Rightarrow>
                                (\<forall>e. r3 = Fail e \<longrightarrow>
                                   Call sz cx c request response =
                                     Some (Fail (Wrap (Wrap e ''failed to receive header'')
                                                  ''failed to receive response''),
                                           c3\<lparr>mu := False\<rparr>, res3))
                                \<and> (r3 = Ok () \<longrightarrow>
                                     (case recvBody sz c3 res3 of
                                        (r4, c4, res4) \<Rightarrow>
                                          (\<forall>e. r4 = Fail e \<longrightarrow>
                                             Call sz cx c request response =
                                               Some (Fail (Wrap (Wrap e ''failed to receive body'')
                                                            ''failed to receive response''),
                                                     c4\<lparr>mu := False\<rparr>, res4))
                                          \<and> (r4 = Ok () \<longrightarrow>
                                               Call sz cx c request response =
                                                 Some (Ok (), c4\<lparr>mu := False\<rparr>, res4)))))))))"
    (is "?A \<and> ?B")
proof -
  from Call_returns [OF assms, where sz = sz and cx = cx and request = request and response = response] obtain r c' res' where
    call: "Call sz cx c request response = Some (r, c', res')"
    and mu: "\<not> mu c'" and fr: "c' = c\<lparr>conn := conn c'\<rparr>"
    and lg: "\<exists>ws rs. log (conn c') = log (conn c) @ ws @ rs \<and> list_all is_write ws \<and> list_all is_read rs"
    by blast
  have again: "Call sz cx' c' request' response' \<noteq> None"
    using Call_returns [OF mu, where sz = sz and cx = cx' and request = request' and response = response'] by auto
  have shape: "\<exists>e0. e = Wrap (Wrap e0 ''failed to send header'') ''failed to send request''
                     \<or> e = Wrap (Wrap e0 ''failed to send body'') ''failed to send request''
                     \<or> e = Wrap (Wrap e0 ''failed to receive header'') ''failed to receive response''
                     \<or> e = Wrap (Wrap e0 ''failed to receive body'') ''failed to receive response''"
    if r: "r = Fail e" for e
  proof -
    obtain r1 c1 where s: "send (c\<lparr>mu := True\<rparr>) request = (r1, c1)" by (metis prod.exhaust)
    show ?thesis
    proof (cases "r1 = Ok ()")
      case False
      then obtain e1 where "r1 = Fail e1" "e = Wrap e1 ''failed to send request''"
        using call r s assms by (cases r1) (auto simp: Call_def)
      then show ?thesis using send_fail_shape [of "c\<lparr>mu := True\<rparr>" request e1 c1] s by auto
    next
      case True
      obtain r2 c2 res2 where v: "recv sz c1 response = (r2, c2, res2)" by (metis prod.exhaust)
      then obtain e2 where "r2 = Fail e2" "e = Wrap e2 ''failed to receive response''"
        using call r s True assms by (cases r2) (auto simp: Call_def)
      then show ?thesis using recv_fail_shape [of sz c1 response e2 c2 res2] v by auto
    qed
  qed
  have a: ?A
    using call mu fr again lg shape by blast
  have b: ?B
    using assms
    by (simp add: Call_def send_def recv_def split: prod.splits res.splits)
  show ?thesis using a b by (rule conjI)
qed

theorem Call_phases_witness:
  "\<not> mu call_client
   \<and> Call Int64 no_ctx call_client send_msg hdr_msg =
       Some (Fail (Wrap (Wrap (Wrap EOF ''failed to read body'') ''failed to receive body'')
                     ''failed to receive response''),
             call_client_after,
             hdr_msg\<lparr>words := 2, mtype := 5, flags := 0, extra := 0, header := [2, 0, 0, 0, 5, 0, 0, 0],
                body1 := \<lparr>Bytes = Some ([1, 2, 3] @ replicate 13 0), Offset = 0\<rparr>\<rparr>)
   \<and> \<not> mu call_client_after
   \<and> Call Int64 expired_ctx call_client_after send_msg hdr_msg \<noteq> None
   \<and> (\<exists>ws rs. log (conn call_client_after) = log (conn call_client) @ ws @ rs
          \<and> list_all is_write ws \<and> list_all is_read rs)"
proof -
  have h: "\<not> mu call_client" by (simp add: call_client_def)
  have run: "Call Int64 no_ctx call_client send_msg hdr_msg =
       Some (Fail (Wrap (Wrap (Wrap EOF ''failed to read body'') ''failed to receive body'')
                     ''failed to receive response''),
             call_client_after,
             hdr_msg\<lparr>words := 2, mtype := 5, flags := 0, extra := 0, header := [2, 0, 0, 0, 5, 0, 0, 0],
                body1 := \<lparr>Bytes = Some ([1, 2, 3] @ replicate 13 0), Offset = 0\<rparr>\<rparr>)"
    by code_simp
  from Call_phases [OF h, where sz = Int64 and cx = no_ctx and request = send_msg and response = hdr_msg
      and cx' = expired_ctx and request' = send_msg and response' = hdr_msg]
  obtain r c' res' where
    "Call Int64 no_ctx call_client send_msg hdr_msg = Some (r, c', res')"
    "\<not> mu c'" "Call Int64 expired_ctx c' send_msg hdr_msg \<noteq> None"
    "\<exists>ws rs. log (conn c') = log (conn call_client) @ ws @ rs
          \<and> list_all is_write ws \<and> list_all is_read rs"
    by blast
  then show ?thesis using h run by simp
qed

text \<open>
  C9. \<^verbatim>\<open>Call\<close> never looks at its context: any two contexts give the same result,
  the same client afterwards, log of the connection included, and the same response.
\<close>

theorem Call_ignores_ctx:
  "Call sz cx1 c request response = Call sz cx2 c request response"
  unfolding Call_def by (rule refl)

subsection \<open>The heartbeat loop\<close>

text \<open>
  C8. Take a turn of the loop that finds \<^verbatim>\<open>closeCh\<close> open and whose call returns.
  If the call returns an error, or the decoder does, or the store does, the loop returns
  at this turn whatever ticks follow: its final state is the state of this turn, so no
  call, decoding or \<^verbatim>\<open>Set\<close> comes after it; the store is untouched in the first
  two cases and has logged the one failed \<^verbatim>\<open>Set\<close> in the third. Otherwise the store
  has logged exactly one more \<^verbatim>\<open>Set\<close>, with the decoded list, and the loop goes on
  with the ticks that follow.
\<close>

theorem heartbeat_stops:
  assumes open_s: "\<not> closeCh (hb_client s)" and open_t: "\<not> closing t"
    and call: "Call sz (hb_ctx t) (hb_client s) (enc (hb_request s) (unix_now t)) (hb_response s)
                 = Some (r, c', resp)"
  shows
    "(r = Fail e \<longrightarrow>
        heartbeat_loop sz enc dec (t # ts) s =
          (Some Returned,
           s\<lparr>hb_client := c', hb_request := enc (hb_request s) (unix_now t), hb_response := resp\<rparr>))
     \<and> (r = Ok () \<and> dec resp = (Inl e, resp') \<longrightarrow>
        heartbeat_loop sz enc dec (t # ts) s =
          (Some Returned,
           s\<lparr>hb_client := c', hb_request := enc (hb_request s) (unix_now t), hb_response := resp'\<rparr>))
     \<and> (r = Ok () \<and> dec resp = (Inr addresses, resp')
          \<and> store_Set (hb_store s) ((hb_ctx t)\<lparr>cancelled := True\<rparr>) addresses = (Some e, st') \<longrightarrow>
        heartbeat_loop sz enc dec (t # ts) s =
          (Some Returned,
           s\<lparr>hb_client := c', hb_request := enc (hb_request s) (unix_now t), hb_response := resp',
             hb_store := st'\<rparr>)
        \<and> sets st' = sets (hb_store s) @ [((hb_ctx t)\<lparr>cancelled := True\<rparr>, addresses)])
     \<and> (r = Ok () \<and> dec resp = (Inr addresses, resp')
          \<and> store_Set (hb_store s) ((hb_ctx t)\<lparr>cancelled := True\<rparr>) addresses = (None, st') \<longrightarrow>
        heartbeat_loop sz enc dec (t # ts) s =
          heartbeat_loop sz enc dec ts
            (s\<lparr>hb_client := c', hb_request := enc (hb_request s) (unix_now t), hb_response := resp',
               hb_store := st'\<rparr>)
        \<and> sets st' = sets (hb_store s) @ [((hb_ctx t)\<lparr>cancelled := True\<rparr>, addresses)])"
proof -
  have c: "(hb_client s)\<lparr>closeCh := closeCh (hb_client s) \<or> closing t\<rparr> = hb_client s"
    using open_s open_t by (cases "hb_client s") simp
  have sets: "sets st = sets (hb_store s) @ [(cx, xs)]"
    if "store_Set (hb_store s) cx xs = (x, st)" for cx xs x st
    using that by (auto simp: store_Set_def split: list.splits)
  show ?thesis
    unfolding heartbeat_loop.simps heartbeat_iter_def Let_def c
    using open_s call sets by auto
qed

theorem heartbeat_stops_witness:
  "\<not> closeCh (hb_client hb_start) \<and> \<not> closing tick1
   \<and> Call Int64 (hb_ctx tick1) (hb_client hb_start) (example_enc (hb_request hb_start) (unix_now tick1))
         (hb_response hb_start)
       = Some (Ok (), hb_client hb_after_first, hb_response hb_after_first)
   \<and> example_dec (hb_response hb_after_first)
       = (Inr [''10.0.0.1:9000'', ''10.0.0.2:9000''], hb_response hb_after_first)
   \<and> store_Set (hb_store hb_start) ((hb_ctx tick1)\<lparr>cancelled := True\<rparr>)
         [''10.0.0.1:9000'', ''10.0.0.2:9000'']
       = (None, hb_store hb_after_first)
   \<and> \<not> closeCh (hb_client hb_after_first) \<and> \<not> closing tick2
   \<and> Call Int64 (hb_ctx tick2) (hb_client hb_after_first)
         (example_enc (hb_request hb_after_first) (unix_now tick2)) (hb_response hb_after_first)
       = Some (Fail (Wrap (Wrap (Wrap EOF ''failed to receive header'') ''failed to receive header'')
                      ''failed to receive response''),
               hb_client hb_after_second, hb_response hb_after_second)
   \<and> heartbeat_loop Int64 example_enc example_dec [tick1, tick2, tick1] hb_start
       = (Some Returned, hb_after_second)
   \<and> sets (hb_store hb_after_second)
       = [(\<lparr>deadline = Some 8, cancelled = True\<rparr>, [''10.0.0.1:9000'', ''10.0.0.2:9000''])]"
proof -
  have o1: "\<not> closeCh (hb_client hb_start)" by (simp add: hb_start_def)
  have t1: "\<not> closing tick1" by (simp add: tick1_def)
  have c1: "Call Int64 (hb_ctx tick1) (hb_client hb_start) (example_enc (hb_request hb_start) (unix_now tick1))
         (hb_response hb_start)
       = Some (Ok (), hb_client hb_after_first, hb_response hb_after_first)"
    by code_simp
  have d1: "example_dec (hb_response hb_after_first)
       = (Inr [''10.0.0.1:9000'', ''10.0.0.2:9000''], hb_response hb_after_first)"
    by (simp add: example_dec_def hb_after_first_def)
  have s1: "store_Set (hb_store hb_start) ((hb_ctx tick1)\<lparr>cancelled := True\<rparr>)
         [''10.0.0.1:9000'', ''10.0.0.2:9000'']
       = (None, hb_store hb_after_first)"
    by (simp add: store_Set_def hb_start_def hb_after_first_def hb_ctx_def tick1_def)
  have o2: "\<not> closeCh (hb_client hb_after_first)" by (simp add: hb_after_first_def)
  have t2: "\<not> closing tick2" by (simp add: tick2_def)
  have c2: "Call Int64 (hb_ctx tick2) (hb_client hb_after_first)
         (example_enc (hb_request hb_after_first) (unix_now tick2)) (hb_response hb_after_first)
       = Some (Fail (Wrap (Wrap (Wrap EOF ''failed to receive header'') ''failed to receive header'')
                      ''failed to receive response''),
               hb_client hb_after_second, hb_response hb_after_second)"
    by code_simp
  have e1: "hb_start\<lparr>hb_client := hb_client hb_after_first,
        hb_request := example_enc (hb_request hb_start) (unix_now tick1),
        hb_response := hb_response hb_after_first, hb_store := hb_store hb_after_first\<rparr> = hb_after_first"
    by code_simp
  have e2: "hb_after_first\<lparr>hb_client := hb_client hb_after_second,
        hb_request := example_enc (hb_request hb_after_first) (unix_now tick2),
        hb_response := hb_response hb_after_second\<rparr> = hb_after_second"
    by code_simp
  note th1 = heartbeat_stops [where enc = example_enc and s = hb_start and t = tick1
      and dec = example_dec and ts = "[tick2, tick1]"
      and addresses = "[''10.0.0.1:9000'', ''10.0.0.2:9000'']" and resp' = "hb_response hb_after_first"
      and st' = "hb_store hb_after_first", OF o1 t1 c1]
  note th2 = heartbeat_stops [where enc = example_enc and s = hb_after_first and t = tick2
      and dec = example_dec and ts = "[tick1]"
      and e = "Wrap (Wrap (Wrap EOF ''failed to receive header'') ''failed to receive header'')
                      ''failed to receive response''", OF o2 t2 c2]
  have l1: "heartbeat_loop Int64 example_enc example_dec [tick1, tick2, tick1] hb_start
      = heartbeat_loop Int64 example_enc example_dec [tick2, tick1] hb_after_first"
    using th1 d1 s1 by (simp add: e1)
  have l2: "heartbeat_loop Int64 example_enc example_dec [tick2, tick1] hb_after_first
      = (Some Returned, hb_after_second)"
    using th2 by (simp add: e2)
  have st: "sets (hb_store hb_after_second)
       = [(\<lparr>deadline = Some 8, cancelled = True\<rparr>, [''10.0.0.1:9000'', ''10.0.0.2:9000''])]"
    by (simp add: hb_after_second_def hb_after_first_def)
  show ?thesis using o1 t1 c1 d1 s1 o2 t2 c2 l1 l2 st by simp
qed

end
